theory Spec2Isabelle
  imports
    Main
    "HOL-Library.Char_ord"
    "HOL-Library.List_Lexorder"
    "HOL-Library.Product_Lexorder"
    "HOL-Library.Multiset"
begin

section \<open>Articles, the seen-URL set and the intermediate index\<close>

text \<open>
  Strings are compared the way \<^verbatim>\<open>std::string::operator<\<close> compares them: byte by byte,
  a proper prefix first. That is the order of \<^typ>\<open>string\<close> under \<open>Char_ord\<close> and
  \<open>List_Lexorder\<close>; pairs are compared as \<^verbatim>\<open>std::pair\<close> compares them (\<open>Product_Lexorder\<close>).
\<close>

record Article =
  title :: string
  url :: string

type_synonym articleBundle = "Article \<times> string list"

text \<open>
  \<^verbatim>\<open>std::map<pair<string, string>, pair<Article, vector<string>>>\<close>: the entries in
  ascending key order, which is the order the flush loop of \<^verbatim>\<open>processAllFeeds\<close> visits them in.
\<close>

type_synonym intermediateIndex = "((string \<times> string) \<times> articleBundle) list"

text \<open>\<^verbatim>\<open>m[k] = v\<close> on a \<^verbatim>\<open>std::map\<close>: replace the entry of \<open>k\<close>, or insert it at its place.\<close>

fun map_assign :: "'k::linorder \<Rightarrow> 'v \<Rightarrow> ('k \<times> 'v) list \<Rightarrow> ('k \<times> 'v) list" where
  "map_assign k v [] = [(k, v)]"
| "map_assign k v ((k', v') # m) =
     (if k = k' then (k, v) # m
      else if k < k' then (k, v) # (k', v') # m
      else (k', v') # map_assign k v m)"

text \<open>
  \<^verbatim>\<open>std::set_intersection\<close> over two sorted ranges, writing to a back inserter: advance the
  range with the smaller head, copy an element found in both and advance both.
\<close>

fun set_intersection :: "'a::linorder list \<Rightarrow> 'a list \<Rightarrow> 'a list" where
  "set_intersection [] ys = []"
| "set_intersection (x # xs) [] = []"
| "set_intersection (x # xs) (y # ys) =
     (if x < y then set_intersection xs (y # ys)
      else if y < x then set_intersection (x # xs) ys
      else x # set_intersection xs ys)"

text \<open>
  The test-and-insert on \<^verbatim>\<open>seenURLs\<close> that opens both kinds of task (news-aggregator.cc,
  lines 146-152 and 179-185), one critical section of \<^verbatim>\<open>seenURLsLock\<close>: the first component
  tells whether the task goes on to fetch the URL.
\<close>

definition claimURL :: "string \<Rightarrow> string set \<Rightarrow> bool \<times> string set" where
  "claimURL u seenURLs =
     (if u \<in> seenURLs then (False, seenURLs) else (True, insert u seenURLs))"

text \<open>
  \<^verbatim>\<open>getURLServer\<close> is declared in a header outside the sources at hand; it is a parameter
  of everything below.
\<close>

definition articleIden :: "(string \<Rightarrow> string) \<Rightarrow> Article \<Rightarrow> string \<times> string" where
  "articleIden getURLServer currentArticle =
     (title currentArticle, getURLServer (url currentArticle))"

text \<open>
  The tail of an article task (news-aggregator.cc, lines 198-216): sort the tokens, then,
  in one critical section of \<^verbatim>\<open>intermediateIndexLock\<close>, insert or merge.
\<close>

definition mergeArticle ::
  "(string \<Rightarrow> string) \<Rightarrow> Article \<Rightarrow> string list \<Rightarrow> intermediateIndex \<Rightarrow> intermediateIndex" where
  "mergeArticle getURLServer currentArticle origTokens idx =
     (let articleURL = url currentArticle;
          iden = articleIden getURLServer currentArticle;
          sortedTokens = sort origTokens
      in case map_of idx iden of
           Some (existingArticle, existingTokens) \<Rightarrow>
             (let existingURL = url existingArticle;
                  revisedArticle = currentArticle\<lparr>url :=
                    (if existingURL < articleURL then existingURL else articleURL)\<rparr>;
                  intersectTokens = set_intersection existingTokens sortedTokens
              in map_assign iden (revisedArticle, intersectTokens) idx)
         | None \<Rightarrow> map_assign iden (currentArticle, sortedTokens) idx)"

text \<open>
  The merge sections of a run, one after the other: \<open>us\<close> lists the articles that reached
  the section with the tokens of their documents, in the order they entered it.
\<close>

definition mergeAll ::
  "(string \<Rightarrow> string) \<Rightarrow> (Article \<times> string list) list \<Rightarrow> intermediateIndex \<Rightarrow> intermediateIndex" where
  "mergeAll getURLServer us idx = foldl (\<lambda>m (a, t). mergeArticle getURLServer a t m) idx us"

text \<open>The updates of \<open>us\<close> that fall on one key: the duplicates of one article.\<close>

definition duplicates ::
  "(string \<Rightarrow> string) \<Rightarrow> string \<times> string \<Rightarrow> (Article \<times> string list) list
     \<Rightarrow> (Article \<times> string list) list" where
  "duplicates getURLServer key us = filter (\<lambda>(a, t). articleIden getURLServer a = key) us"

text \<open>What the comment on \<^verbatim>\<open>intermediateIndex\<close> in news-aggregator.h promises of every entry.\<close>

definition entryOK :: "(string \<Rightarrow> string) \<Rightarrow> (string \<times> string) \<times> articleBundle \<Rightarrow> bool" where
  "entryOK getURLServer e =
     (case e of (key, (a, tokens)) \<Rightarrow>
        title a = fst key \<and> getURLServer (url a) = snd key \<and> sorted tokens)"

section \<open>The thread pool\<close>

text \<open>
  How a step of a thread can fail to produce a next state: the thread is blocked (on a
  semaphore that is zero, on the condition variable of \<^verbatim>\<open>wait\<close>, or it has ended), the
  step has undefined behaviour in C++ (an index out of range, \<^verbatim>\<open>front()\<close> of an empty queue,
  a mutex locked twice), an \<^verbatim>\<open>int\<close> counter leaves its range (undefined as well, and kept
  apart), or the process ends in \<^verbatim>\<open>std::terminate\<close>.
\<close>

datatype fault = Blocked | Undefined | Overflow | Terminated

text \<open>
  Where a worker thread stands in \<^verbatim>\<open>ThreadPool::worker\<close> (thread-pool.cc, lines 70-93).
  \<open>NotSpawned\<close> is the default-constructed \<^verbatim>\<open>std::thread\<close> of a slot whose worker has not
  been created. \<open>Running r\<close>: inside the thunk (line 78), at the point \<open>r\<close> of its body.
\<close>

datatype 'r workerPc =
    NotSpawned
  | AwaitThunk     \<comment> \<open>line 72, \<^verbatim>\<open>thunkToExecute.wait()\<close>, and the test of line 74\<close>
  | Running 'r     \<comment> \<open>line 78\<close>
  | CountDown      \<comment> \<open>lines 80-85\<close>
  | Release        \<comment> \<open>lines 87-89\<close>
  | Announce       \<comment> \<open>line 91\<close>
  | WorkerExited

text \<open>Where the dispatcher thread stands in \<^verbatim>\<open>ThreadPool::dispatcher\<close> (lines 30-68).\<close>

datatype 't dispatcherPc =
    AwaitNewThunk         \<comment> \<open>line 32\<close>
  | AwaitWorker           \<comment> \<open>line 33, and the test of line 35\<close>
  | SelectWorker          \<comment> \<open>lines 39-56\<close>
  | PopThunk nat          \<comment> \<open>lines 58-61, with \<^verbatim>\<open>availableWorkerID\<close>\<close>
  | AssignThunk nat 't    \<comment> \<open>lines 63-66, with \<^verbatim>\<open>availableWorkerID\<close> and \<^verbatim>\<open>currentThunk\<close>\<close>
  | DispatcherExited

record ('t, 'r) workerStruct =
  workerThread :: "'r workerPc"
  workerThunk :: "'t option"     \<comment> \<open>\<open>None\<close>: the empty \<^verbatim>\<open>std::function\<close>\<close>
  thunkToExecute :: nat
  workerInUse :: bool

record ('t, 'r) ThreadPool =
  workerVector :: "('t, 'r) workerStruct list"
  dispatcherThread :: "'t dispatcherPc"
  thunkQueue :: "'t list"
  nextSpawnID :: int
  pendingThunks :: int
  exitFlag :: bool
  workerIsAvailable :: nat
  newThunkFromScheduler :: nat

definition INT_MAX :: int where
  "INT_MAX = 2147483647"

definition INT_MIN :: int where
  "INT_MIN = - 2147483648"

text \<open>The constructor (line 14); the dispatcher thread it starts begins at line 32.\<close>

definition ThreadPool_new :: "nat \<Rightarrow> ('t, 'r) ThreadPool" where
  "ThreadPool_new numThreads =
     \<lparr>workerVector = replicate numThreads
        \<lparr>workerThread = NotSpawned, workerThunk = None, thunkToExecute = 0, workerInUse = False\<rparr>,
      dispatcherThread = AwaitNewThunk,
      thunkQueue = [],
      nextSpawnID = 0,
      pendingThunks = 0,
      exitFlag = False,
      workerIsAvailable = numThreads,
      newThunkFromScheduler = 0\<rparr>"

text \<open>
  \<^verbatim>\<open>schedule\<close> (lines 18-28) is three steps, each atomic, with other threads free to run
  in between: the push under \<^verbatim>\<open>queueLock\<close>, the increment under \<^verbatim>\<open>pendingThunksLock\<close>, the
  signal.
\<close>

definition schedule_push :: "'t \<Rightarrow> ('t, 'r) ThreadPool \<Rightarrow> ('t, 'r) ThreadPool" where
  "schedule_push thunk p = p\<lparr>thunkQueue := thunkQueue p @ [thunk]\<rparr>"

definition schedule_count :: "('t, 'r) ThreadPool \<Rightarrow> fault + ('t, 'r) ThreadPool" where
  "schedule_count p =
     (if pendingThunks p = INT_MAX then Inl Overflow
      else Inr (p\<lparr>pendingThunks := pendingThunks p + 1\<rparr>))"

definition schedule_signal :: "('t, 'r) ThreadPool \<Rightarrow> ('t, 'r) ThreadPool" where
  "schedule_signal p = p\<lparr>newThunkFromScheduler := newThunkFromScheduler p + 1\<rparr>"

text \<open>
  \<^verbatim>\<open>wait\<close> (lines 95-100) returns when it finds \<^verbatim>\<open>pendingThunks == 0\<close> while holding
  \<^verbatim>\<open>pendingThunksLock\<close>, and changes nothing.
\<close>

definition wait :: "('t, 'r) ThreadPool \<Rightarrow> fault + ('t, 'r) ThreadPool" where
  "wait p = (if pendingThunks p = 0 then Inr p else Inl Blocked)"

text \<open>Lines 44-47: the worker of slot \<^verbatim>\<open>nextSpawnID\<close> is created and starts at line 72.\<close>

definition spawn :: "('t, 'r) ThreadPool \<Rightarrow> fault + ('t, 'r) ThreadPool" where
  "spawn p =
     (if nextSpawnID p < 0 \<or> int (length (workerVector p)) \<le> nextSpawnID p then Inl Undefined
      else if workerThread (workerVector p ! nat (nextSpawnID p)) \<noteq> NotSpawned then Inl Terminated
      else if nextSpawnID p = INT_MAX then Inl Overflow
      else Inr (p\<lparr>workerVector := (workerVector p)[nat (nextSpawnID p) :=
                     (workerVector p ! nat (nextSpawnID p))\<lparr>workerThread := AwaitThunk\<rparr>],
                  nextSpawnID := nextSpawnID p + 1\<rparr>))"

lemma spawn_length: "spawn p = Inr p' \<Longrightarrow> length (workerVector p') = length (workerVector p)"
  by (auto simp: spawn_def split: if_splits)

text \<open>
  The loop of lines 41-56, entered at \<open>candidateWorkerID\<close>, all of it under \<^verbatim>\<open>workersLock\<close>.
  It returns \<^verbatim>\<open>availableWorkerID\<close>, which is still -1 when the loop runs off the end.
\<close>

function selectWorker ::
  "nat \<Rightarrow> ('t, 'r) ThreadPool \<Rightarrow> fault + (int \<times> ('t, 'r) ThreadPool)" where
  "selectWorker candidateWorkerID p =
     (if candidateWorkerID < length (workerVector p) then
        (case (if int candidateWorkerID = nextSpawnID p then spawn p else Inr p) of
           Inl e \<Rightarrow> Inl e
         | Inr p' \<Rightarrow>
             if \<not> workerInUse (workerVector p' ! candidateWorkerID)
             then Inr (int candidateWorkerID,
                       p'\<lparr>workerVector := (workerVector p')[candidateWorkerID :=
                            (workerVector p' ! candidateWorkerID)\<lparr>workerInUse := True\<rparr>]\<rparr>)
             else selectWorker (Suc candidateWorkerID) p')
      else Inr (- 1, p))"
  by pat_completeness auto
termination
  by (relation "measure (\<lambda>(c, p). length (workerVector p) - c)")
     (auto dest: spawn_length split: if_splits)

declare selectWorker.simps [simp del]

text \<open>
  One step of the dispatcher thread. When the loop leaves \<^verbatim>\<open>availableWorkerID\<close> at -1 the
  thread still holds \<^verbatim>\<open>workersLock\<close> and goes on to lock it again and to index the vector
  at -1: undefined behaviour.
\<close>

definition dispatcher :: "('t, 'r) ThreadPool \<Rightarrow> fault + ('t, 'r) ThreadPool" where
  "dispatcher p =
     (case dispatcherThread p of
        AwaitNewThunk \<Rightarrow>
          if newThunkFromScheduler p = 0 then Inl Blocked
          else Inr (p\<lparr>newThunkFromScheduler := newThunkFromScheduler p - 1,
                      dispatcherThread := AwaitWorker\<rparr>)
      | AwaitWorker \<Rightarrow>
          if workerIsAvailable p = 0 then Inl Blocked
          else Inr (p\<lparr>workerIsAvailable := workerIsAvailable p - 1,
                      dispatcherThread := (if exitFlag p then DispatcherExited else SelectWorker)\<rparr>)
      | SelectWorker \<Rightarrow>
          (case selectWorker 0 p of
             Inl e \<Rightarrow> Inl e
           | Inr (availableWorkerID, p') \<Rightarrow>
               if availableWorkerID < 0 then Inl Undefined
               else Inr (p'\<lparr>dispatcherThread := PopThunk (nat availableWorkerID)\<rparr>))
      | PopThunk availableWorkerID \<Rightarrow>
          (case thunkQueue p of
             [] \<Rightarrow> Inl Undefined
           | currentThunk # rest \<Rightarrow>
               Inr (p\<lparr>thunkQueue := rest,
                      dispatcherThread := AssignThunk availableWorkerID currentThunk\<rparr>))
      | AssignThunk availableWorkerID currentThunk \<Rightarrow>
          if length (workerVector p) \<le> availableWorkerID then Inl Undefined
          else Inr (p\<lparr>workerVector := (workerVector p)[availableWorkerID :=
                         (workerVector p ! availableWorkerID)
                           \<lparr>workerThunk := Some currentThunk,
                            thunkToExecute := thunkToExecute (workerVector p ! availableWorkerID) + 1\<rparr>],
                      dispatcherThread := AwaitNewThunk\<rparr>)
      | DispatcherExited \<Rightarrow> Inl Blocked)"

text \<open>
  One step of the worker thread of slot \<open>workerID\<close> outside the thunk. \<open>invoke\<close> gives the
  point at which the body of a thunk starts; calling the empty \<^verbatim>\<open>std::function\<close> throws,
  and nothing catches it. \<^verbatim>\<open>notify_all\<close> has no state of its own: a thread in \<^verbatim>\<open>wait\<close> can
  step exactly when the counter is zero.
\<close>

definition worker :: "('t \<Rightarrow> 'r) \<Rightarrow> nat \<Rightarrow> ('t, 'r) ThreadPool \<Rightarrow> fault + ('t, 'r) ThreadPool" where
  "worker invoke workerID p =
     (if length (workerVector p) \<le> workerID then Inl Blocked
      else
        let w = workerVector p ! workerID in
        case workerThread w of
          NotSpawned \<Rightarrow> Inl Blocked
        | AwaitThunk \<Rightarrow>
            if thunkToExecute w = 0 then Inl Blocked
            else if exitFlag p then
              Inr (p\<lparr>workerVector := (workerVector p)[workerID :=
                     w\<lparr>thunkToExecute := thunkToExecute w - 1, workerThread := WorkerExited\<rparr>]\<rparr>)
            else
              (case workerThunk w of
                 None \<Rightarrow> Inl Terminated
               | Some thunk \<Rightarrow>
                   Inr (p\<lparr>workerVector := (workerVector p)[workerID :=
                          w\<lparr>thunkToExecute := thunkToExecute w - 1,
                            workerThread := Running (invoke thunk)\<rparr>]\<rparr>))
        | Running r \<Rightarrow> Inl Blocked
        | CountDown \<Rightarrow>
            if pendingThunks p = INT_MIN then Inl Overflow
            else Inr (p\<lparr>pendingThunks := pendingThunks p - 1,
                        workerVector := (workerVector p)[workerID := w\<lparr>workerThread := Release\<rparr>]\<rparr>)
        | Release \<Rightarrow>
            Inr (p\<lparr>workerVector := (workerVector p)[workerID :=
                   w\<lparr>workerInUse := False, workerThread := Announce\<rparr>]\<rparr>)
        | Announce \<Rightarrow>
            Inr (p\<lparr>workerIsAvailable := workerIsAvailable p + 1,
                   workerVector := (workerVector p)[workerID := w\<lparr>workerThread := AwaitThunk\<rparr>]\<rparr>)
        | WorkerExited \<Rightarrow> Inl Blocked)"

text \<open>
  The thunk on worker \<open>workerID\<close> moves to the point \<open>r\<close> of its body, or ends. A thunk that
  returns leaves the worker at line 80. One that throws unwinds \<^verbatim>\<open>worker\<close>, which has no
  handler and is the thread's function: \<^verbatim>\<open>std::terminate\<close>.
\<close>

definition thunkAt :: "nat \<Rightarrow> 'r workerPc \<Rightarrow> ('t, 'r) ThreadPool \<Rightarrow> ('t, 'r) ThreadPool" where
  "thunkAt workerID pc p =
     p\<lparr>workerVector := (workerVector p)[workerID := (workerVector p ! workerID)\<lparr>workerThread := pc\<rparr>]\<rparr>"

datatype outcome = Returns | Throws

definition thunkMoves :: "'r \<Rightarrow> nat \<Rightarrow> ('t, 'r) ThreadPool \<Rightarrow> fault + ('t, 'r) ThreadPool" where
  "thunkMoves r workerID p =
     (if length (workerVector p) \<le> workerID then Inl Blocked
      else case workerThread (workerVector p ! workerID) of
        Running r' \<Rightarrow> Inr (thunkAt workerID (Running r) p)
      | _ \<Rightarrow> Inl Blocked)"

definition thunkEnds :: "outcome \<Rightarrow> nat \<Rightarrow> ('t, 'r) ThreadPool \<Rightarrow> fault + ('t, 'r) ThreadPool" where
  "thunkEnds out workerID p =
     (if length (workerVector p) \<le> workerID then Inl Blocked
      else case workerThread (workerVector p ! workerID) of
        Running r \<Rightarrow> (case out of Returns \<Rightarrow> Inr (thunkAt workerID CountDown p) | Throws \<Rightarrow> Inl Terminated)
      | _ \<Rightarrow> Inl Blocked)"

text \<open>
  What can happen to a pool, seen from the pool: a client thread performs one of the three
  steps of \<^verbatim>\<open>schedule\<close> or returns from \<^verbatim>\<open>wait\<close>, the dispatcher or a worker takes a step, a
  thunk moves on in its body or ends. Whatever
  the clients and the thunks do, the pool goes through a sequence of these.
\<close>

datatype ('t, 'r) poolEvent =
    SchedulePush 't
  | ScheduleCount
  | ScheduleSignal
  | WaitReturns
  | Dispatcher
  | Worker nat
  | ThunkMoves nat 'r
  | ThunkEnds nat outcome

fun poolStep :: "('t \<Rightarrow> 'r) \<Rightarrow> ('t, 'r) poolEvent \<Rightarrow> ('t, 'r) ThreadPool \<Rightarrow> fault + ('t, 'r) ThreadPool" where
  "poolStep invoke (SchedulePush thunk) p = Inr (schedule_push thunk p)"
| "poolStep invoke ScheduleCount p = schedule_count p"
| "poolStep invoke ScheduleSignal p = Inr (schedule_signal p)"
| "poolStep invoke WaitReturns p = wait p"
| "poolStep invoke Dispatcher p = dispatcher p"
| "poolStep invoke (Worker workerID) p = worker invoke workerID p"
| "poolStep invoke (ThunkMoves workerID r) p = thunkMoves r workerID p"
| "poolStep invoke (ThunkEnds workerID out) p = thunkEnds out workerID p"

fun poolRun :: "('t \<Rightarrow> 'r) \<Rightarrow> ('t, 'r) poolEvent list \<Rightarrow> ('t, 'r) ThreadPool \<Rightarrow> fault + ('t, 'r) ThreadPool" where
  "poolRun invoke [] p = Inr p"
| "poolRun invoke (e # es) p =
     (case poolStep invoke e p of Inl f \<Rightarrow> Inl f | Inr p' \<Rightarrow> poolRun invoke es p')"

text \<open>
  One pass of a worker through lines 78-91 with no other thread in between: the thunk
  ends, then the three bookkeeping steps.
\<close>

definition workerPass :: "('t \<Rightarrow> 'r) \<Rightarrow> outcome \<Rightarrow> nat \<Rightarrow> ('t, 'r) ThreadPool \<Rightarrow> fault + ('t, 'r) ThreadPool" where
  "workerPass invoke out workerID p =
     poolRun invoke [ThunkEnds workerID out, Worker workerID, Worker workerID, Worker workerID] p"

text \<open>
  Client threads of one pool. A client makes its calls one after the other; a call to
  \<^verbatim>\<open>schedule\<close> is its three steps, a call to \<^verbatim>\<open>wait\<close> one. \<open>clients\<close> holds the steps each
  client has still to take.
\<close>

datatype 't request = Schedule 't | Wait

fun calls :: "'t request list \<Rightarrow> ('t, 'r) poolEvent list" where
  "calls [] = []"
| "calls (Schedule thunk # rs) = SchedulePush thunk # ScheduleCount # ScheduleSignal # calls rs"
| "calls (Wait # rs) = WaitReturns # calls rs"

record ('t, 'r) clientsAndPool =
  clients :: "('t, 'r) poolEvent list list"
  thePool :: "('t, 'r) ThreadPool"

datatype actor = Client nat | PoolDispatcher | PoolWorker nat | Thunk nat outcome

fun act :: "('t \<Rightarrow> 'r) \<Rightarrow> actor \<Rightarrow> ('t, 'r) clientsAndPool \<Rightarrow> fault + ('t, 'r) clientsAndPool" where
  "act invoke (Client c) h =
     (if length (clients h) \<le> c then Inl Blocked
      else case clients h ! c of
        [] \<Rightarrow> Inl Blocked
      | e # es \<Rightarrow>
          (case poolStep invoke e (thePool h) of
             Inl f \<Rightarrow> Inl f
           | Inr p \<Rightarrow> Inr (h\<lparr>clients := (clients h)[c := es], thePool := p\<rparr>)))"
| "act invoke PoolDispatcher h =
     (case dispatcher (thePool h) of Inl f \<Rightarrow> Inl f | Inr p \<Rightarrow> Inr (h\<lparr>thePool := p\<rparr>))"
| "act invoke (PoolWorker workerID) h =
     (case worker invoke workerID (thePool h) of Inl f \<Rightarrow> Inl f | Inr p \<Rightarrow> Inr (h\<lparr>thePool := p\<rparr>))"
| "act invoke (Thunk workerID out) h =
     (case thunkEnds out workerID (thePool h) of Inl f \<Rightarrow> Inl f | Inr p \<Rightarrow> Inr (h\<lparr>thePool := p\<rparr>))"

fun acts :: "('t \<Rightarrow> 'r) \<Rightarrow> actor list \<Rightarrow> ('t, 'r) clientsAndPool \<Rightarrow> fault + ('t, 'r) clientsAndPool" where
  "acts invoke [] h = Inr h"
| "acts invoke (a # as) h = (case act invoke a h of Inl f \<Rightarrow> Inl f | Inr h' \<Rightarrow> acts invoke as h')"

section \<open>The aggregator\<close>

text \<open>
  The collaborators the sources at hand only call. \<open>None\<close> is the exception the parser
  throws (\<^verbatim>\<open>RSSFeedListException\<close>, \<^verbatim>\<open>RSSFeedException\<close>, \<^verbatim>\<open>HTMLDocumentException\<close>); the lists
  are what \<^verbatim>\<open>getFeeds\<close> (a \<^verbatim>\<open>std::map\<close>, so in ascending order of the feed URL),
  \<^verbatim>\<open>getArticles\<close> and \<^verbatim>\<open>getTokens\<close> return after a successful parse.
\<close>

record collaborators =
  rssFeedList :: "string \<Rightarrow> (string \<times> string) list option"
  rssFeed :: "string \<Rightarrow> Article list option"
  htmlDocument :: "string \<Rightarrow> string list option"
  getURLServer :: "string \<Rightarrow> string"

text \<open>Where the thunk of \<^verbatim>\<open>launchFeedPool\<close> (news-aggregator.cc, lines 142-169) stands.\<close>

datatype feedPc =
    FeedClaim "string \<times> string"   \<comment> \<open>lines 143-152\<close>
  | FeedParse "string \<times> string"   \<comment> \<open>lines 154-167\<close>
  | ArticleLoop "Article list"    \<comment> \<open>line 175; \<^verbatim>\<open>articlePool.schedule\<close>, thread-pool.cc lines 19-21\<close>
  | ArticleCount "Article list"   \<comment> \<open>\<^verbatim>\<open>articlePool.schedule\<close>, thread-pool.cc lines 23-25\<close>
  | ArticleSignal "Article list"  \<comment> \<open>\<^verbatim>\<open>articlePool.schedule\<close>, thread-pool.cc line 27\<close>
  | ArticleWait                   \<comment> \<open>line 219\<close>

text \<open>Where the thunk of \<^verbatim>\<open>launchArticlePool\<close> (lines 176-217) stands.\<close>

datatype articlePc =
    ArticleClaim Article                  \<comment> \<open>lines 177-185\<close>
  | ArticleParse Article                  \<comment> \<open>lines 187-196\<close>
  | ArticleMerge Article "string list"    \<comment> \<open>lines 198-216\<close>

text \<open>Where the thread that called \<^verbatim>\<open>launchFeedPool\<close> (lines 140-172) stands.\<close>

datatype mainPc =
    NotLaunched
  | FeedLoop "(string \<times> string) list"     \<comment> \<open>line 141; \<^verbatim>\<open>feedPool.schedule\<close>, thread-pool.cc lines 19-21\<close>
  | FeedCount "(string \<times> string) list"    \<comment> \<open>\<^verbatim>\<open>feedPool.schedule\<close>, thread-pool.cc lines 23-25\<close>
  | FeedSignal "(string \<times> string) list"   \<comment> \<open>\<^verbatim>\<open>feedPool.schedule\<close>, thread-pool.cc line 27\<close>
  | FeedWait                             \<comment> \<open>line 171\<close>
  | Returned

text \<open>
  The fields of the class that the run reads or writes. \<open>index\<close> is the \<^verbatim>\<open>RSSIndex\<close>, kept
  as the sequence of \<^verbatim>\<open>add\<close> calls it has received. \<open>mainThread\<close> is not a field of the
  class: it is the control state of the thread inside \<^verbatim>\<open>launchFeedPool\<close>.
\<close>

record NewsAggregator =
  rssFeedListURI :: string
  index :: "(Article \<times> string list) list"
  built :: bool
  feedPool :: "(string \<times> string, feedPc) ThreadPool"
  articlePool :: "(Article, articlePc) ThreadPool"
  seenURLs :: "string set"
  intermediateIndex :: intermediateIndex
  mainThread :: mainPc

definition kNumFeedWorkers :: nat where
  "kNumFeedWorkers = 10"

definition kNumArticleWorkers :: nat where
  "kNumArticleWorkers = 50"

definition NewsAggregator_new :: "string \<Rightarrow> NewsAggregator" where
  "NewsAggregator_new uri =
     \<lparr>rssFeedListURI = uri, index = [], built = False,
      feedPool = ThreadPool_new kNumFeedWorkers,
      articlePool = ThreadPool_new kNumArticleWorkers,
      seenURLs = {}, intermediateIndex = [], mainThread = NotLaunched\<rparr>"

text \<open>One step of the article thunk running on worker \<open>workerID\<close> of the article pool.\<close>

definition articleThunk ::
  "collaborators \<Rightarrow> nat \<Rightarrow> articlePc \<Rightarrow> NewsAggregator \<Rightarrow> fault + NewsAggregator" where
  "articleThunk web workerID pc s =
     (case pc of
        ArticleClaim currentArticle \<Rightarrow>
          (case claimURL (url currentArticle) (seenURLs s) of
             (claimed, seen) \<Rightarrow>
               if \<not> claimed
               then Inr (s\<lparr>articlePool := thunkAt workerID CountDown (articlePool s)\<rparr>)
               else Inr (s\<lparr>seenURLs := seen,
                           articlePool :=
                             thunkAt workerID (Running (ArticleParse currentArticle))
                               (articlePool s)\<rparr>))
      | ArticleParse currentArticle \<Rightarrow>
          (case htmlDocument web (url currentArticle) of
             None \<Rightarrow> Inr (s\<lparr>articlePool := thunkAt workerID CountDown (articlePool s)\<rparr>)
           | Some origTokens \<Rightarrow>
               Inr (s\<lparr>articlePool :=
                        thunkAt workerID (Running (ArticleMerge currentArticle origTokens))
                          (articlePool s)\<rparr>))
      | ArticleMerge currentArticle origTokens \<Rightarrow>
          Inr (s\<lparr>intermediateIndex :=
                   mergeArticle (getURLServer web) currentArticle origTokens (intermediateIndex s),
                 articlePool := thunkAt workerID CountDown (articlePool s)\<rparr>))"

text \<open>
  One step of the feed thunk running on worker \<open>workerID\<close> of the feed pool. From
  \<open>ArticleLoop\<close> on the thunk is inside \<^verbatim>\<open>launchArticlePool\<close>.
\<close>

definition feedThunk ::
  "collaborators \<Rightarrow> nat \<Rightarrow> feedPc \<Rightarrow> NewsAggregator \<Rightarrow> fault + NewsAggregator" where
  "feedThunk web workerID pc s =
     (case pc of
        FeedClaim currentFeed \<Rightarrow>
          (case claimURL (fst currentFeed) (seenURLs s) of
             (claimed, seen) \<Rightarrow>
               if \<not> claimed
               then Inr (s\<lparr>feedPool := thunkAt workerID CountDown (feedPool s)\<rparr>)
               else Inr (s\<lparr>seenURLs := seen,
                           feedPool :=
                             thunkAt workerID (Running (FeedParse currentFeed)) (feedPool s)\<rparr>))
      | FeedParse currentFeed \<Rightarrow>
          (case rssFeed web (fst currentFeed) of
             None \<Rightarrow> Inr (s\<lparr>feedPool := thunkAt workerID CountDown (feedPool s)\<rparr>)
           | Some articles \<Rightarrow>
               if articles = []
               then Inr (s\<lparr>feedPool := thunkAt workerID CountDown (feedPool s)\<rparr>)
               else Inr (s\<lparr>feedPool := thunkAt workerID (Running (ArticleLoop articles)) (feedPool s)\<rparr>))
      | ArticleLoop articles \<Rightarrow>
          (case articles of
             [] \<Rightarrow> Inr (s\<lparr>feedPool := thunkAt workerID (Running ArticleWait) (feedPool s)\<rparr>)
           | currentArticle # rest \<Rightarrow>
               Inr (s\<lparr>articlePool := schedule_push currentArticle (articlePool s),
                      feedPool := thunkAt workerID (Running (ArticleCount rest)) (feedPool s)\<rparr>))
      | ArticleCount rest \<Rightarrow>
          (case schedule_count (articlePool s) of
             Inl f \<Rightarrow> Inl f
           | Inr p \<Rightarrow>
               Inr (s\<lparr>articlePool := p,
                      feedPool := thunkAt workerID (Running (ArticleSignal rest)) (feedPool s)\<rparr>))
      | ArticleSignal rest \<Rightarrow>
          Inr (s\<lparr>articlePool := schedule_signal (articlePool s),
                 feedPool := thunkAt workerID (Running (ArticleLoop rest)) (feedPool s)\<rparr>)
      | ArticleWait \<Rightarrow>
          (case wait (articlePool s) of
             Inl f \<Rightarrow> Inl f
           | Inr p \<Rightarrow> Inr (s\<lparr>feedPool := thunkAt workerID CountDown (feedPool s)\<rparr>)))"

text \<open>One step of the thread inside \<^verbatim>\<open>launchFeedPool\<close>.\<close>

definition mainStep :: "NewsAggregator \<Rightarrow> fault + NewsAggregator" where
  "mainStep s =
     (case mainThread s of
        NotLaunched \<Rightarrow> Inl Blocked
      | FeedLoop feeds \<Rightarrow>
          (case feeds of
             [] \<Rightarrow> Inr (s\<lparr>mainThread := FeedWait\<rparr>)
           | currentFeed # rest \<Rightarrow>
               Inr (s\<lparr>feedPool := schedule_push currentFeed (feedPool s),
                      mainThread := FeedCount rest\<rparr>))
      | FeedCount rest \<Rightarrow>
          (case schedule_count (feedPool s) of
             Inl f \<Rightarrow> Inl f
           | Inr p \<Rightarrow> Inr (s\<lparr>feedPool := p, mainThread := FeedSignal rest\<rparr>))
      | FeedSignal rest \<Rightarrow>
          Inr (s\<lparr>feedPool := schedule_signal (feedPool s), mainThread := FeedLoop rest\<rparr>)
      | FeedWait \<Rightarrow>
          (case wait (feedPool s) of
             Inl f \<Rightarrow> Inl f
           | Inr p \<Rightarrow> Inr (s\<lparr>mainThread := Returned\<rparr>))
      | Returned \<Rightarrow> Inl Blocked)"

text \<open>The threads of a run, and one step of any of them.\<close>

datatype pool = FeedPool | ArticlePool

datatype thread = MainThread | DispatcherThread pool | WorkerThread pool nat

fun step :: "collaborators \<Rightarrow> thread \<Rightarrow> NewsAggregator \<Rightarrow> fault + NewsAggregator" where
  "step web MainThread s = mainStep s"
| "step web (DispatcherThread FeedPool) s =
     (case dispatcher (feedPool s) of Inl f \<Rightarrow> Inl f | Inr p \<Rightarrow> Inr (s\<lparr>feedPool := p\<rparr>))"
| "step web (DispatcherThread ArticlePool) s =
     (case dispatcher (articlePool s) of Inl f \<Rightarrow> Inl f | Inr p \<Rightarrow> Inr (s\<lparr>articlePool := p\<rparr>))"
| "step web (WorkerThread FeedPool workerID) s =
     (if length (workerVector (feedPool s)) \<le> workerID then Inl Blocked
      else case workerThread (workerVector (feedPool s) ! workerID) of
        Running pc \<Rightarrow> feedThunk web workerID pc s
      | _ \<Rightarrow> (case worker FeedClaim workerID (feedPool s) of
                Inl f \<Rightarrow> Inl f | Inr p \<Rightarrow> Inr (s\<lparr>feedPool := p\<rparr>)))"
| "step web (WorkerThread ArticlePool workerID) s =
     (if length (workerVector (articlePool s)) \<le> workerID then Inl Blocked
      else case workerThread (workerVector (articlePool s) ! workerID) of
        Running pc \<Rightarrow> articleThunk web workerID pc s
      | _ \<Rightarrow> (case worker ArticleClaim workerID (articlePool s) of
                Inl f \<Rightarrow> Inl f | Inr p \<Rightarrow> Inr (s\<lparr>articlePool := p\<rparr>)))"

text \<open>
  A schedule names the thread that takes each step. A run follows it as long as the
  named thread can step.
\<close>

fun run :: "collaborators \<Rightarrow> thread list \<Rightarrow> NewsAggregator \<Rightarrow> fault + NewsAggregator" where
  "run web [] s = Inr s"
| "run web (t # ts) s = (case step web t s of Inl f \<Rightarrow> Inl f | Inr s' \<Rightarrow> run web ts s')"

text \<open>
  \<^verbatim>\<open>launchFeedPool\<close> under the schedule \<open>sched\<close>: the call returns when the calling thread has
  left \<^verbatim>\<open>feedPool.wait()\<close>. A schedule that ends before that leaves the caller blocked.
\<close>

definition launchFeedPool ::
  "collaborators \<Rightarrow> (string \<times> string) list \<Rightarrow> thread list \<Rightarrow> NewsAggregator
     \<Rightarrow> fault + NewsAggregator" where
  "launchFeedPool web feeds sched s =
     (case run web sched (s\<lparr>mainThread := FeedLoop feeds\<rparr>) of
        Inl f \<Rightarrow> Inl f
      | Inr s' \<Rightarrow> if mainThread s' = Returned then Inr s' else Inl Blocked)"

text \<open>\<^verbatim>\<open>processAllFeeds\<close> (lines 118-138); the loop of lines 135-137 is the flush.\<close>

definition processAllFeeds ::
  "collaborators \<Rightarrow> thread list \<Rightarrow> NewsAggregator \<Rightarrow> fault + NewsAggregator" where
  "processAllFeeds web sched s =
     (case rssFeedList web (rssFeedListURI s) of
        None \<Rightarrow> Inr s
      | Some feeds \<Rightarrow>
          if feeds = [] then Inr s
          else (case launchFeedPool web feeds sched s of
                  Inl f \<Rightarrow> Inl f
                | Inr s' \<Rightarrow> Inr (s'\<lparr>index := index s' @ map snd (intermediateIndex s')\<rparr>)))"

text \<open>\<^verbatim>\<open>buildIndex\<close> (lines 67-75).\<close>

definition buildIndex ::
  "collaborators \<Rightarrow> thread list \<Rightarrow> NewsAggregator \<Rightarrow> fault + NewsAggregator" where
  "buildIndex web sched s =
     (if built s then Inr s else processAllFeeds web sched (s\<lparr>built := True\<rparr>))"

section \<open>What the proofs count\<close>

text \<open>
  The slots of the vector whose worker has been created are those below \<^verbatim>\<open>nextSpawnID\<close>.
\<close>

definition spawnedBelow :: "('t, 'r) ThreadPool \<Rightarrow> bool" where
  "spawnedBelow p \<longleftrightarrow>
     0 \<le> nextSpawnID p \<and> nextSpawnID p \<le> int (length (workerVector p)) \<and>
     (\<forall>i < length (workerVector p).
        workerThread (workerVector p ! i) = NotSpawned \<longleftrightarrow> nextSpawnID p \<le> int i)"

text \<open>
  A worker is busy with a thunk from the call of line 78 until it has counted the thunk
  off at line 81. A worker holds, besides, the thunks it has been signalled to execute
  and has not yet started.
\<close>

fun busy :: "'r workerPc \<Rightarrow> nat" where
  "busy (Running r) = 1"
| "busy CountDown = 1"
| "busy pc = 0"

definition holding :: "('t, 'r) workerStruct \<Rightarrow> nat" where
  "holding w = thunkToExecute w + busy (workerThread w)"

definition tally :: "(('t, 'r) workerStruct \<Rightarrow> nat) \<Rightarrow> ('t, 'r) ThreadPool \<Rightarrow> nat" where
  "tally g p = sum_list (map g (workerVector p))"

fun carried :: "'t dispatcherPc \<Rightarrow> nat" where
  "carried (AssignThunk w t) = 1"
| "carried pc = 0"

text \<open>
  The thunks that are in the queue, in the hands of the dispatcher, or on a worker: every
  thunk that has been pushed and not yet counted off.
\<close>

definition outstanding :: "('t, 'r) ThreadPool \<Rightarrow> nat" where
  "outstanding p = length (thunkQueue p) + carried (dispatcherThread p) + tally holding p"

definition idle :: "('t, 'r) ThreadPool \<Rightarrow> bool" where
  "idle p \<longleftrightarrow>
     thunkQueue p = [] \<and> carried (dispatcherThread p) = 0 \<and>
     list_all (\<lambda>w. thunkToExecute w = 0 \<and> busy (workerThread w) = 0) (workerVector p)"

text \<open>Feed thunks that have pushed an article and not yet counted it.\<close>

fun uncounted :: "feedPc workerPc \<Rightarrow> nat" where
  "uncounted (Running (ArticleCount rest)) = 1"
| "uncounted pc = 0"

text \<open>Feed thunks inside \<^verbatim>\<open>launchArticlePool\<close>.\<close>

fun inLaunch :: "feedPc workerPc \<Rightarrow> nat" where
  "inLaunch (Running (FeedClaim f)) = 0"
| "inLaunch (Running (FeedParse f)) = 0"
| "inLaunch (Running pc) = 1"
| "inLaunch pc = 0"

fun uncountedFeed :: "mainPc \<Rightarrow> nat" where
  "uncountedFeed (FeedCount rest) = 1"
| "uncountedFeed pc = 0"

definition barrier :: "NewsAggregator \<Rightarrow> bool" where
  "barrier s \<longleftrightarrow>
     \<not> exitFlag (feedPool s) \<and> \<not> exitFlag (articlePool s) \<and>
     pendingThunks (feedPool s) + int (uncountedFeed (mainThread s)) =
       int (outstanding (feedPool s)) \<and>
     pendingThunks (articlePool s) + int (tally (uncounted \<circ> workerThread) (feedPool s)) =
       int (outstanding (articlePool s)) \<and>
     (tally (inLaunch \<circ> workerThread) (feedPool s) = 0 \<longrightarrow> pendingThunks (articlePool s) = 0) \<and>
     (mainThread s = Returned \<longrightarrow> pendingThunks (feedPool s) = 0)"

text \<open>
  The URL a thread is about to fetch: its next step is the \<^verbatim>\<open>parse\<close> of a feed (line 156)
  or of a document (line 192).
\<close>

fun feedFetching :: "feedPc workerPc \<Rightarrow> string option" where
  "feedFetching (Running (FeedParse currentFeed)) = Some (fst currentFeed)"
| "feedFetching pc = None"

fun articleFetching :: "articlePc workerPc \<Rightarrow> string option" where
  "articleFetching (Running (ArticleParse currentArticle)) = Some (url currentArticle)"
| "articleFetching pc = None"

fun fetching :: "thread \<Rightarrow> NewsAggregator \<Rightarrow> string option" where
  "fetching (WorkerThread FeedPool workerID) s =
     (if length (workerVector (feedPool s)) \<le> workerID then None
      else feedFetching (workerThread (workerVector (feedPool s) ! workerID)))"
| "fetching (WorkerThread ArticlePool workerID) s =
     (if length (workerVector (articlePool s)) \<le> workerID then None
      else articleFetching (workerThread (workerVector (articlePool s) ! workerID)))"
| "fetching t s = None"

text \<open>The URLs fetched in the course of a run, in the order of the fetches.\<close>

fun fetches :: "collaborators \<Rightarrow> thread list \<Rightarrow> NewsAggregator \<Rightarrow> string list" where
  "fetches web [] s = []"
| "fetches web (t # ts) s =
     (case step web t s of
        Inl f \<Rightarrow> []
      | Inr s' \<Rightarrow>
          (case fetching t s of
             None \<Rightarrow> fetches web ts s'
           | Some u \<Rightarrow> u # fetches web ts s'))"

text \<open>How many threads have claimed \<open>u\<close> and not yet fetched it.\<close>

definition feedClaimed :: "string \<Rightarrow> feedPc workerPc \<Rightarrow> nat" where
  "feedClaimed u pc = (if feedFetching pc = Some u then 1 else 0)"

definition articleClaimed :: "string \<Rightarrow> articlePc workerPc \<Rightarrow> nat" where
  "articleClaimed u pc = (if articleFetching pc = Some u then 1 else 0)"

definition claimed :: "string \<Rightarrow> NewsAggregator \<Rightarrow> nat" where
  "claimed u s =
     tally (feedClaimed u \<circ> workerThread) (feedPool s) +
     tally (articleClaimed u \<circ> workerThread) (articlePool s)"

definition claimsOK :: "NewsAggregator \<Rightarrow> bool" where
  "claimsOK s \<longleftrightarrow> (\<forall>u. claimed u s \<le> (if u \<in> seenURLs s then 1 else 0))"

text \<open>
  What a step does to the claims: a fetch takes one claim of its URL away; a successful
  test-and-insert adds a URL that was not seen, and one claim of it; any other step
  changes neither the claims nor the set.
\<close>

definition claimStep :: "string option \<Rightarrow> NewsAggregator \<Rightarrow> NewsAggregator \<Rightarrow> bool" where
  "claimStep f s s' \<longleftrightarrow>
     (case f of
        Some u \<Rightarrow>
          seenURLs s' = seenURLs s \<and> 0 < claimed u s \<and>
          (\<forall>v. int (claimed v s') = int (claimed v s) - (if v = u then 1 else 0))
      | None \<Rightarrow>
          (seenURLs s' = seenURLs s \<and> (\<forall>v. claimed v s' = claimed v s)) \<or>
          (\<exists>u. u \<notin> seenURLs s \<and> seenURLs s' = insert u (seenURLs s) \<and>
               (\<forall>v. claimed v s' = claimed v s + (if v = u then 1 else 0))))"

text \<open>
  The article and tokens a thread is about to merge: its next step is the critical section
  of lines 202-216.
\<close>

fun articleMerging :: "articlePc workerPc \<Rightarrow> (Article \<times> string list) option" where
  "articleMerging (Running (ArticleMerge currentArticle origTokens)) =
     Some (currentArticle, origTokens)"
| "articleMerging pc = None"

fun merging :: "thread \<Rightarrow> NewsAggregator \<Rightarrow> (Article \<times> string list) option" where
  "merging (WorkerThread ArticlePool workerID) s =
     (if length (workerVector (articlePool s)) \<le> workerID then None
      else articleMerging (workerThread (workerVector (articlePool s) ! workerID)))"
| "merging t s = None"

text \<open>The merges made in the course of a run, in the order they were made.\<close>

fun merges :: "collaborators \<Rightarrow> thread list \<Rightarrow> NewsAggregator \<Rightarrow> (Article \<times> string list) list" where
  "merges web [] s = []"
| "merges web (t # ts) s =
     (case step web t s of
        Inl f \<Rightarrow> []
      | Inr s' \<Rightarrow>
          (case merging t s of
             None \<Rightarrow> merges web ts s'
           | Some u \<Rightarrow> u # merges web ts s'))"

subsection \<open>The protocol of a pool\<close>

text \<open>The slot the dispatcher has marked in use and not yet handed a thunk.\<close>

fun heldBy :: "'t dispatcherPc \<Rightarrow> nat option" where
  "heldBy (PopThunk w) = Some w"
| "heldBy (AssignThunk w t) = Some w"
| "heldBy pc = None"

fun selecting :: "'t dispatcherPc \<Rightarrow> nat" where
  "selecting SelectWorker = 1"
| "selecting pc = 0"

text \<open>A worker from the call of its thunk until it has marked itself free.\<close>

fun working :: "'r workerPc \<Rightarrow> bool" where
  "working (Running r) = True"
| "working CountDown = True"
| "working Release = True"
| "working pc = False"

definition occupied :: "('t, 'r) workerStruct \<Rightarrow> nat" where
  "occupied w = (if workerInUse w then 1 else 0) + (if workerThread w = Announce then 1 else 0)"

text \<open>
  What holds of a slot: a slot without a worker is free; at most one signal is pending on
  \<^verbatim>\<open>thunkToExecute\<close>, and then the slot is in use, has a thunk, and neither the dispatcher nor
  the worker is at work on it; a worker at work is in use; so is a slot the dispatcher holds.
\<close>

definition slotOK :: "bool \<Rightarrow> ('t, 'r) workerStruct \<Rightarrow> bool" where
  "slotOK held w \<longleftrightarrow>
     (workerThread w = NotSpawned \<longrightarrow> \<not> workerInUse w) \<and>
     thunkToExecute w \<le> 1 \<and>
     (0 < thunkToExecute w \<longrightarrow>
        workerInUse w \<and> workerThunk w \<noteq> None \<and> \<not> held \<and> \<not> working (workerThread w)) \<and>
     (working (workerThread w) \<longrightarrow> workerInUse w \<and> \<not> held) \<and>
     (held \<longrightarrow> workerInUse w)"

definition protocol :: "('t, 'r) ThreadPool \<Rightarrow> bool" where
  "protocol p \<longleftrightarrow>
     \<not> exitFlag p \<and> spawnedBelow p \<and> int (length (workerVector p)) \<le> INT_MAX \<and>
     (\<forall>i < length (workerVector p).
        slotOK (heldBy (dispatcherThread p) = Some i) (workerVector p ! i)) \<and>
     (\<forall>a. heldBy (dispatcherThread p) = Some a \<longrightarrow> a < length (workerVector p)) \<and>
     workerIsAvailable p + selecting (dispatcherThread p) + tally occupied p
       \<le> length (workerVector p)"

text \<open>The dispatcher has taken a signal of \<^verbatim>\<open>newThunkFromScheduler\<close> and not yet popped a thunk.\<close>

fun due :: "'t dispatcherPc \<Rightarrow> nat" where
  "due AwaitWorker = 1"
| "due SelectWorker = 1"
| "due (PopThunk w) = 1"
| "due pc = 0"

text \<open>Clients that have pushed a thunk and not yet signalled.\<close>

fun unsignalledFeed :: "mainPc \<Rightarrow> nat" where
  "unsignalledFeed (FeedCount rest) = 1"
| "unsignalledFeed (FeedSignal rest) = 1"
| "unsignalledFeed pc = 0"

fun unsignalled :: "feedPc workerPc \<Rightarrow> nat" where
  "unsignalled (Running (ArticleCount rest)) = 1"
| "unsignalled (Running (ArticleSignal rest)) = 1"
| "unsignalled pc = 0"

text \<open>
  Both pools keep the protocol, and each queue holds one thunk for every signal that is
  pending, taken by the dispatcher, or still to come from a client.
\<close>

definition sound :: "NewsAggregator \<Rightarrow> bool" where
  "sound s \<longleftrightarrow>
     protocol (feedPool s) \<and> protocol (articlePool s) \<and>
     length (thunkQueue (feedPool s)) =
       newThunkFromScheduler (feedPool s) + due (dispatcherThread (feedPool s)) +
       unsignalledFeed (mainThread s) \<and>
     length (thunkQueue (articlePool s)) =
       newThunkFromScheduler (articlePool s) + due (dispatcherThread (articlePool s)) +
       tally (unsignalled \<circ> workerThread) (feedPool s)"

subsection \<open>Who waits on which pool\<close>

text \<open>
  The pool a thread is about to come back from a \<^verbatim>\<open>wait()\<close> on: the caller of
  \<^verbatim>\<open>launchFeedPool\<close> at line 171, a feed thunk inside \<^verbatim>\<open>launchArticlePool\<close> at line 219.
  No other thread calls \<^verbatim>\<open>wait\<close>.
\<close>

fun awaiting :: "thread \<Rightarrow> NewsAggregator \<Rightarrow> pool option" where
  "awaiting MainThread s = (if mainThread s = FeedWait then Some FeedPool else None)"
| "awaiting (WorkerThread FeedPool workerID) s =
     (if length (workerVector (feedPool s)) \<le> workerID then None
      else if workerThread (workerVector (feedPool s) ! workerID) = Running ArticleWait
      then Some ArticlePool else None)"
| "awaiting t s = None"

text \<open>The calls of \<^verbatim>\<open>wait()\<close> that return in a run, in the order of the run.\<close>

fun waits :: "collaborators \<Rightarrow> thread list \<Rightarrow> NewsAggregator \<Rightarrow> (thread \<times> pool) list" where
  "waits web [] s = []"
| "waits web (t # ts) s =
     (case step web t s of
        Inl f \<Rightarrow> []
      | Inr s' \<Rightarrow>
          (case awaiting t s of
             None \<Rightarrow> waits web ts s'
           | Some p \<Rightarrow> (t, p) # waits web ts s'))"

section \<open>A small run\<close>

text \<open>
  One feed with two copies of an article under different URLs of one server, and a
  schedule that runs the feed thunk to its wait, then the two article thunks, one after
  the other.
\<close>

definition exampleWeb :: collaborators where
  "exampleWeb =
     \<lparr>rssFeedList = (\<lambda>u. if u = ''list'' then Some [(''f1'', ''Feed'')] else None),
      rssFeed = (\<lambda>u. if u = ''f1''
                      then Some [\<lparr>title = ''X'', url = ''http://a.com/2''\<rparr>,
                                 \<lparr>title = ''X'', url = ''http://a.com/1''\<rparr>]
                      else None),
      htmlDocument = (\<lambda>u. if u = ''http://a.com/1'' then Some [''b'', ''a'', ''c'']
                           else if u = ''http://a.com/2'' then Some [''c'', ''b'']
                           else None),
      getURLServer = take 12\<rparr>"

definition exampleSchedule :: "thread list" where
  "exampleSchedule =
     replicate 4 MainThread @ replicate 5 (DispatcherThread FeedPool) @
     replicate 10 (WorkerThread FeedPool 0) @ replicate 10 (DispatcherThread ArticlePool) @
     replicate 5 (WorkerThread ArticlePool 0) @ replicate 5 (WorkerThread ArticlePool 1) @
     replicate 2 (WorkerThread FeedPool 0) @ [MainThread]"

text \<open>The same, with the second article thunk merging before the first.\<close>

definition exampleSchedule2 :: "thread list" where
  "exampleSchedule2 =
     replicate 4 MainThread @ replicate 5 (DispatcherThread FeedPool) @
     replicate 10 (WorkerThread FeedPool 0) @ replicate 10 (DispatcherThread ArticlePool) @
     replicate 3 (WorkerThread ArticlePool 0) @ replicate 5 (WorkerThread ArticlePool 1) @
     replicate 2 (WorkerThread ArticlePool 0) @
     replicate 2 (WorkerThread FeedPool 0) @ [MainThread]"

text \<open>A web on which nothing parses.\<close>

definition deadWeb :: collaborators where
  "deadWeb = \<lparr>rssFeedList = (\<lambda>u. None), rssFeed = (\<lambda>u. None), htmlDocument = (\<lambda>u. None),
              getURLServer = id\<rparr>"

text \<open>A feed that lists one article twice.\<close>

definition repeatWeb :: collaborators where
  "repeatWeb =
     \<lparr>rssFeedList = (\<lambda>u. Some [(''f1'', ''Feed'')]),
      rssFeed = (\<lambda>u. Some [\<lparr>title = ''X'', url = ''http://a.com/1''\<rparr>,
                            \<lparr>title = ''X'', url = ''http://a.com/1''\<rparr>]),
      htmlDocument = (\<lambda>u. Some [''b'', ''a'']),
      getURLServer = take 12\<rparr>"

text \<open>
  Two feeds of one article each, and a schedule in which the thunk of the first feed has
  pushed its article and not counted it when the thunk of the second feed schedules its
  own and waits.
\<close>

definition twoFeedsWeb :: collaborators where
  "twoFeedsWeb =
     \<lparr>rssFeedList = (\<lambda>u. Some [(''f1'', ''One''), (''f2'', ''Two'')]),
      rssFeed = (\<lambda>u. if u = ''f1'' then Some [\<lparr>title = ''A'', url = ''http://a.com/1''\<rparr>]
                      else Some [\<lparr>title = ''B'', url = ''http://b.com/2''\<rparr>]),
      htmlDocument = (\<lambda>u. Some [''b'', ''a'']),
      getURLServer = take 12\<rparr>"

definition earlyReturnSchedule :: "thread list" where
  "earlyReturnSchedule =
     replicate 7 MainThread @ replicate 10 (DispatcherThread FeedPool) @
     replicate 4 (WorkerThread FeedPool 0) @ replicate 7 (WorkerThread FeedPool 1) @
     replicate 5 (DispatcherThread ArticlePool) @ replicate 5 (WorkerThread ArticlePool 0) @
     [WorkerThread FeedPool 1]"

text \<open>A pool of one worker, which is inside the only thunk scheduled so far.\<close>

definition busyPool :: "(nat, nat) ThreadPool" where
  "busyPool =
     \<lparr>workerVector = [\<lparr>workerThread = Running 7, workerThunk = Some 7, thunkToExecute = 0,
                        workerInUse = True\<rparr>],
      dispatcherThread = AwaitNewThunk, thunkQueue = [], nextSpawnID = 1, pendingThunks = 1,
      exitFlag = False, workerIsAvailable = 0, newThunkFromScheduler = 0\<rparr>"

section \<open>Merging\<close>

lemma map_of_map_assign: "map_of (map_assign k v m) = (map_of m)(k \<mapsto> v)"
  by (induction m) (auto simp: fun_eq_iff)

lemma set_map_assign: "set (map_assign k v m) \<subseteq> insert (k, v) (set m)"
  by (induction m) (auto split: if_splits)

lemma set_intersection_subset: "set (set_intersection xs ys) \<subseteq> set xs"
  by (induction xs ys rule: set_intersection.induct) auto

lemma set_intersection_sorted: "sorted xs \<Longrightarrow> sorted (set_intersection xs ys)"
proof (induction xs ys rule: set_intersection.induct)
  case (3 x xs y ys)
  then show ?case
    using set_intersection_subset [of xs ys] by auto
qed simp_all

lemma set_intersection_mset:
  "sorted xs \<Longrightarrow> sorted ys \<Longrightarrow> mset (set_intersection xs ys) = mset xs \<inter># mset ys"
proof (induction xs ys rule: set_intersection.induct)
  case (3 x xs y ys)
  show ?case
  proof (cases "x < y")
    case True
    with 3 have "x \<notin> set (y # ys)" by auto
    then have "add_mset x (mset xs) \<inter># mset (y # ys) = mset xs \<inter># mset (y # ys)"
      by (metis inter_add_left1 set_mset_mset)
    with True 3 show ?thesis by simp
  next
    case False
    show ?thesis
    proof (cases "y < x")
      case True
      with 3 have "y \<notin> set (x # xs)" by auto
      then have "mset (x # xs) \<inter># add_mset y (mset ys) = mset (x # xs) \<inter># mset ys"
        by (metis inter_add_right1 set_mset_mset)
      with True False 3 show ?thesis by simp
    next
      case F2: False
      with False have "x = y" by simp
      with False 3 show ?thesis by simp
    qed
  qed
qed simp_all

lemma sorted_mset_unique:
  fixes xs ys :: "'a::linorder list"
  assumes "sorted xs" "sorted ys" "mset xs = mset ys"
  shows "xs = ys"
  using assms by (metis properties_for_sort sorted_sort_id)

lemma mergeAll_snoc:
  "mergeAll srv (us @ [(a, t)]) idx = mergeArticle srv a t (mergeAll srv us idx)"
  by (simp add: mergeAll_def)

lemma mergeArticle_other:
  "articleIden srv a \<noteq> key \<Longrightarrow> map_of (mergeArticle srv a t idx) key = map_of idx key"
  by (auto simp: mergeArticle_def Let_def map_of_map_assign split: option.splits)

lemma mergeArticle_fresh:
  "articleIden srv a = key \<Longrightarrow> map_of idx key = None \<Longrightarrow>
   map_of (mergeArticle srv a t idx) key = Some (a, sort t)"
  by (auto simp: mergeArticle_def Let_def map_of_map_assign)

lemma mergeArticle_present:
  "articleIden srv a = key \<Longrightarrow> map_of idx key = Some (b, ts) \<Longrightarrow>
   map_of (mergeArticle srv a t idx) key =
     Some (a\<lparr>url := min (url b) (url a)\<rparr>, set_intersection ts (sort t))"
  by (auto simp: mergeArticle_def Let_def map_of_map_assign min_def)

text \<open>
  The entry of a key after any sequence of merge sections, in closed form: the article
  carries the least URL of the duplicates, the tokens are sorted, and a token occurs as
  often as in the duplicate that has it least often.
\<close>

lemma mergeAll_entry:
  "case map_of (mergeAll srv us []) key of
     None \<Rightarrow> duplicates srv key us = []
   | Some (b, ts) \<Rightarrow>
       duplicates srv key us \<noteq> [] \<and>
       b = \<lparr>title = fst key, url = Min (set (map (url \<circ> fst) (duplicates srv key us)))\<rparr> \<and>
       sorted ts \<and>
       (\<forall>x. count (mset ts) x = Min (set (map (\<lambda>(a, t). count (mset t) x) (duplicates srv key us))))"
proof (induction us rule: rev_induct)
  case Nil
  show ?case by (simp add: mergeAll_def duplicates_def)
next
  case (snoc u us)
  obtain a t where u: "u = (a, t)" by (cases u)
  let ?D = "duplicates srv key us"
  let ?m = "mergeAll srv us []"
  show ?case
  proof (cases "articleIden srv a = key")
    case False
    then have eqD: "duplicates srv key (us @ [u]) = ?D" by (simp add: duplicates_def u)
    have eqM: "map_of (mergeAll srv (us @ [u]) []) key = map_of ?m key"
      using False by (simp add: u mergeAll_snoc mergeArticle_other)
    show ?thesis unfolding eqD eqM by (rule snoc)
  next
    case True
    have D': "duplicates srv key (us @ [u]) = ?D @ [(a, t)]"
      using True by (simp add: duplicates_def u)
    have ta: "title a = fst key" using True by (auto simp: articleIden_def)
    show ?thesis
    proof (cases "map_of ?m key")
      case None
      then have Dnil: "?D = []" using snoc by simp
      have "map_of (mergeAll srv (us @ [u]) []) key = Some (a, sort t)"
        using True None by (simp add: u mergeAll_snoc mergeArticle_fresh)
      then show ?thesis using Dnil D' ta by simp
    next
      case (Some e)
      obtain b ts where e: "e = (b, ts)" by (cases e)
      have Dne: "?D \<noteq> []"
        and b: "b = \<lparr>title = fst key, url = Min (set (map (url \<circ> fst) ?D))\<rparr>"
        and ts: "sorted ts"
        "\<And>x. count (mset ts) x = Min (set (map (\<lambda>(a, t). count (mset t) x) ?D))"
        using snoc Some e by auto
      have new: "map_of (mergeAll srv (us @ [u]) []) key =
            Some (a\<lparr>url := min (url b) (url a)\<rparr>, set_intersection ts (sort t))"
        using True Some e by (simp add: u mergeAll_snoc mergeArticle_present)
      have ne: "set (map (url \<circ> fst) ?D) \<noteq> {}" using Dne by simp
      have url: "min (url b) (url a) = Min (set (map (url \<circ> fst) (?D @ [(a, t)])))"
        using ne by (simp add: b min.commute)
      have art: "a\<lparr>url := min (url b) (url a)\<rparr> =
            \<lparr>title = fst key, url = Min (set (map (url \<circ> fst) (?D @ [(a, t)])))\<rparr>"
        using ta url by simp
      have srt: "sorted (set_intersection ts (sort t))"
        using ts(1) by (rule set_intersection_sorted)
      have cnt: "count (mset (set_intersection ts (sort t))) x =
            Min (set (map (\<lambda>(a, t). count (mset t) x) (?D @ [(a, t)])))" for x
      proof -
        have ne2: "set (map (\<lambda>(a, t). count (mset t) x) ?D) \<noteq> {}" using Dne by simp
        have "count (mset (set_intersection ts (sort t))) x =
              min (count (mset ts) x) (count (mset t) x)"
          using ts(1) by (simp add: set_intersection_mset)
        also have "\<dots> = Min (set (map (\<lambda>(a, t). count (mset t) x) (?D @ [(a, t)])))"
          using ne2 by (simp add: ts(2) min.commute)
        finally show ?thesis .
      qed
      show ?thesis using new art srt cnt D' by simp
    qed
  qed
qed

lemma duplicates_perm:
  "mset us' = mset us \<Longrightarrow> set (duplicates srv key us') = set (duplicates srv key us)"
  unfolding duplicates_def by (metis mset_filter set_mset_mset)

lemma counts_to_sets:
  assumes "D \<noteq> []"
    and "\<forall>x. count (mset toks) x = Min (set (map (\<lambda>(a, t). count (mset t) x) D))"
  shows "set toks = (\<Inter>(a, t) \<in> set D. set t)"
proof -
  have "x \<in> set toks \<longleftrightarrow> (\<forall>(a, t) \<in> set D. x \<in> set t)" for x
  proof -
    let ?A = "set (map (\<lambda>(a, t). count (mset t) x) D)"
    have fin: "finite ?A" "?A \<noteq> {}" using assms(1) by auto
    have "x \<in> set toks \<longleftrightarrow> 0 < count (mset toks) x" by simp
    also have "\<dots> \<longleftrightarrow> 0 < Min ?A" using assms(2) by simp
    also have "\<dots> \<longleftrightarrow> (\<forall>c \<in> ?A. 0 < c)" using fin by (rule Min_gr_iff)
    also have "\<dots> \<longleftrightarrow> (\<forall>(a, t) \<in> set D. x \<in> set t)" by auto
    finally show ?thesis .
  qed
  then show ?thesis by auto
qed

text \<open>
  In whatever order \<open>us'\<close> the updates \<open>us\<close> are made, the entry of a key on which some of
  them fall is the same, and it is the closed form above.
\<close>

lemma mergeAll_order_independent:
  assumes perm: "mset us' = mset us"
    and dup: "duplicates srv key us \<noteq> []"
  shows "\<exists>toks.
           map_of (mergeAll srv us' []) key =
             Some (\<lparr>title = fst key,
                    url = Min (set (map (url \<circ> fst) (duplicates srv key us)))\<rparr>, toks) \<and>
           sorted toks \<and>
           set toks = (\<Inter>(a, t) \<in> set (duplicates srv key us). set t) \<and>
           (\<forall>x. count_list toks x =
                  Min (set (map (\<lambda>(a, t). count_list t x) (duplicates srv key us)))) \<and>
           map_of (mergeAll srv us' []) key = map_of (mergeAll srv us []) key"
proof -
  let ?D = "duplicates srv key us" and ?D' = "duplicates srv key us'"
  have sD: "set ?D' = set ?D" using perm by (rule duplicates_perm)
  then have D'ne: "?D' \<noteq> []" using dup by (metis set_empty)
  have img: "set (map f ?D') = set (map f ?D)" for f :: "Article \<times> string list \<Rightarrow> 'b"
    using sD by simp
  from mergeAll_entry [where srv = srv and us = us' and key = key] D'ne
  obtain b' ts' where e': "map_of (mergeAll srv us' []) key = Some (b', ts')"
    and b': "b' = \<lparr>title = fst key, url = Min (set (map (url \<circ> fst) ?D'))\<rparr>"
    and s': "sorted ts'"
    and c': "\<forall>x. count (mset ts') x = Min (set (map (\<lambda>(a, t). count (mset t) x) ?D'))"
    by (cases "map_of (mergeAll srv us' []) key") auto
  from mergeAll_entry [where srv = srv and us = us and key = key] dup
  obtain b ts where e: "map_of (mergeAll srv us []) key = Some (b, ts)"
    and b: "b = \<lparr>title = fst key, url = Min (set (map (url \<circ> fst) ?D))\<rparr>"
    and s: "sorted ts"
    and c: "\<forall>x. count (mset ts) x = Min (set (map (\<lambda>(a, t). count (mset t) x) ?D))"
    by (cases "map_of (mergeAll srv us []) key") auto
  have bb: "b' = b" unfolding b b' img ..
  have c'': "\<forall>x. count (mset ts') x = Min (set (map (\<lambda>(a, t). count (mset t) x) ?D))"
    using c' unfolding img .
  have "mset ts' = mset ts" using c c'' by (simp add: multiset_eq_iff)
  then have tt: "ts' = ts" by (rule sorted_mset_unique [OF s' s])
  have sets: "set ts' = (\<Inter>(a, t) \<in> set ?D. set t)"
    using dup c'' by (rule counts_to_sets)
  have cl: "\<forall>x. count_list ts' x = Min (set (map (\<lambda>(a, t). count_list t x) ?D))"
    using c'' by (simp add: count_mset)
  show ?thesis using e' e bb b tt s sets cl by auto
qed

section \<open>The intermediate index\<close>

text \<open>Both branches of the merge section keep every entry as the header describes it.\<close>

lemma mergeArticle_entryOK:
  assumes "list_all (entryOK srv) idx"
  shows "list_all (entryOK srv) (mergeArticle srv a toks idx)"
proof -
  let ?k = "articleIden srv a"
  have new: "list_all (entryOK srv) (map_assign ?k v idx)" if ok: "entryOK srv (?k, v)" for v
  proof -
    have "entryOK srv x" if "x \<in> set (map_assign ?k v idx)" for x
    proof -
      from that set_map_assign [of ?k v idx] have "x = (?k, v) \<or> x \<in> set idx" by blast
      then show ?thesis using ok assms by (auto simp: list_all_iff)
    qed
    then show ?thesis by (simp add: list_all_iff)
  qed
  show ?thesis
  proof (cases "map_of idx ?k")
    case None
    have "entryOK srv (?k, (a, sort toks))"
      by (simp add: entryOK_def articleIden_def)
    from new [OF this] None show ?thesis
      by (simp add: mergeArticle_def Let_def)
  next
    case (Some e)
    obtain b ts where e: "e = (b, ts)" by (cases e)
    have "(?k, (b, ts)) \<in> set idx" using Some e by (auto dest: map_of_SomeD)
    then have old: "entryOK srv (?k, (b, ts))" using assms by (auto simp: list_all_iff)
    have "entryOK srv (?k, (a\<lparr>url := (if url b < url a then url b else url a)\<rparr>,
                          set_intersection ts (sort toks)))"
      using old by (auto simp: entryOK_def articleIden_def intro: set_intersection_sorted)
    from new [OF this] Some e
    show ?thesis by (simp add: mergeArticle_def Let_def)
  qed
qed

text \<open>The list stays what a \<^verbatim>\<open>std::map\<close> is: its keys ascending, each once.\<close>

lemma map_assign_keys: "fst ` set (map_assign k v m) = insert k (fst ` set m)"
proof -
  have "fst ` set (map_assign k v m) = dom (map_of (map_assign k v m))"
    by (simp add: dom_map_of_conv_image_fst)
  also have "\<dots> = insert k (dom (map_of m))" by (simp add: map_of_map_assign)
  finally show ?thesis by (simp add: dom_map_of_conv_image_fst)
qed

lemma map_assign_sorted:
  "sorted (map fst m) \<Longrightarrow> distinct (map fst m) \<Longrightarrow>
   sorted (map fst (map_assign k v m)) \<and> distinct (map fst (map_assign k v m))"
proof (induction m)
  case Nil
  show ?case by simp
next
  case (Cons e m)
  obtain k' v' where e: "e = (k', v')" by (cases e)
  from Cons have IH: "sorted (map fst (map_assign k v m))" "distinct (map fst (map_assign k v m))"
    by simp_all
  show ?case
  proof (cases "k = k'")
    case True
    with Cons.prems e show ?thesis by simp
  next
    case False
    show ?thesis
    proof (cases "k < k'")
      case True
      with Cons.prems e False show ?thesis by (auto simp: less_imp_le)
    next
      case F: False
      with False have lt: "k' < k" by simp
      note keys = map_assign_keys [of k v m]
      from Cons.prems e have "\<forall>x \<in> fst ` set m. k' < x"
        by (auto simp: less_le)
      with lt keys have "\<forall>x \<in> fst ` set (map_assign k v m). k' < x" by simp
      then have "\<forall>x \<in> set (map_assign k v m). k' \<le> fst x" "k' \<notin> fst ` set (map_assign k v m)"
        by (auto simp: less_le)
      with e False F IH show ?thesis by simp
    qed
  qed
qed

lemma mergeArticle_sorted:
  "sorted (map fst idx) \<Longrightarrow> distinct (map fst idx) \<Longrightarrow>
   sorted (map fst (mergeArticle srv a toks idx)) \<and>
   distinct (map fst (mergeArticle srv a toks idx))"
  by (auto simp: mergeArticle_def Let_def map_assign_sorted split: option.splits)


section \<open>The pool\<close>

lemma spawnedBelow_new: "spawnedBelow (ThreadPool_new M)"
  by (simp add: spawnedBelow_def ThreadPool_new_def)

lemma workerThread_inUse_update [simp]:
  "workerThread ((ws[c := (ws ! c)\<lparr>workerInUse := b\<rparr>]) ! i) = workerThread (ws ! i)"
  by (cases "c < length ws") (auto simp: nth_list_update list_update_beyond)

lemma spawn_spawnedBelow:
  assumes "spawn p = Inr p'" "spawnedBelow p"
  shows "spawnedBelow p'"
  using assms
  by (auto simp: spawn_def spawnedBelow_def nth_list_update split: if_splits)

lemma selectWorker_spawnedBelow:
  "selectWorker c p = Inr (a, p') \<Longrightarrow> spawnedBelow p \<Longrightarrow>
   spawnedBelow p' \<and> length (workerVector p') = length (workerVector p)"
proof (induction c p rule: selectWorker.induct)
  case (1 c p)
  show ?case
  proof (cases "c < length (workerVector p)")
    case False
    with "1.prems" show ?thesis by (simp add: selectWorker.simps [of c p])
  next
    case True
    let ?q = "if int c = nextSpawnID p then spawn p else Inr p"
    from "1.prems"(1) True obtain q where q: "?q = Inr q"
      by (cases ?q) (auto simp: selectWorker.simps [of c p])
    have sq: "spawnedBelow q" and lq: "length (workerVector q) = length (workerVector p)"
      using q "1.prems"(2) by (auto split: if_splits dest: spawn_spawnedBelow spawn_length)
    show ?thesis
    proof (cases "workerInUse (workerVector q ! c)")
      case False
      with "1.prems"(1) True q
      have "p' = q\<lparr>workerVector := (workerVector q)[c := (workerVector q ! c)\<lparr>workerInUse := True\<rparr>]\<rparr>"
        by (simp add: selectWorker.simps [of c p])
      then show ?thesis using sq lq
        by (simp add: spawnedBelow_def)
    next
      case inUse: True
      with "1.prems"(1) True q have rec: "selectWorker (Suc c) q = Inr (a, p')"
        by (simp add: selectWorker.simps [of c p])
      from "1.IH" [OF True q _ rec sq] inUse lq show ?thesis by simp
    qed
  qed
qed

lemma dispatcher_spawnedBelow:
  "dispatcher p = Inr p' \<Longrightarrow> spawnedBelow p \<Longrightarrow> spawnedBelow p'"
proof (cases "dispatcherThread p")
  case SelectWorker
  assume a: "dispatcher p = Inr p'" and s: "spawnedBelow p"
  from a SelectWorker obtain w q where sel: "selectWorker 0 p = Inr (w, q)"
    and p': "p' = q\<lparr>dispatcherThread := PopThunk (nat w)\<rparr>"
    by (auto simp: dispatcher_def split: sum.splits prod.splits if_splits)
  from selectWorker_spawnedBelow [OF sel s] p' show ?thesis
    by (simp add: spawnedBelow_def)
qed (auto simp: dispatcher_def spawnedBelow_def nth_list_update split: if_splits list.splits)

lemma spawnedBelow_frame:
  assumes "spawnedBelow p"
    and "nextSpawnID p' = nextSpawnID p"
    and "length (workerVector p') = length (workerVector p)"
    and "\<And>j. j < length (workerVector p) \<Longrightarrow>
           (workerThread (workerVector p' ! j) = NotSpawned) =
           (workerThread (workerVector p ! j) = NotSpawned)"
  shows "spawnedBelow p'"
  using assms unfolding spawnedBelow_def by simp

lemma worker_frame:
  assumes "worker invoke i p = Inr p'"
  shows "nextSpawnID p' = nextSpawnID p"
    and "length (workerVector p') = length (workerVector p)"
    and "(workerThread (workerVector p' ! j) = NotSpawned) =
         (workerThread (workerVector p ! j) = NotSpawned)"
  using assms unfolding worker_def Let_def
  by (auto simp: nth_list_update split: if_splits option.splits workerPc.splits)

lemma thunkEnds_frame:
  assumes "thunkEnds out i p = Inr p'"
  shows "nextSpawnID p' = nextSpawnID p"
    and "length (workerVector p') = length (workerVector p)"
    and "(workerThread (workerVector p' ! j) = NotSpawned) =
         (workerThread (workerVector p ! j) = NotSpawned)"
  using assms unfolding thunkEnds_def thunkAt_def
  by (auto simp: nth_list_update split: if_splits workerPc.splits outcome.splits)

lemma thunkMoves_frame:
  assumes "thunkMoves r i p = Inr p'"
  shows "nextSpawnID p' = nextSpawnID p"
    and "length (workerVector p') = length (workerVector p)"
    and "(workerThread (workerVector p' ! j) = NotSpawned) =
         (workerThread (workerVector p ! j) = NotSpawned)"
  using assms unfolding thunkMoves_def thunkAt_def
  by (auto simp: nth_list_update split: if_splits workerPc.splits)

lemma worker_spawnedBelow:
  "worker invoke i p = Inr p' \<Longrightarrow> spawnedBelow p \<Longrightarrow> spawnedBelow p'"
  by (rule spawnedBelow_frame) (simp_all add: worker_frame)

lemma thunkEnds_spawnedBelow:
  "thunkEnds out i p = Inr p' \<Longrightarrow> spawnedBelow p \<Longrightarrow> spawnedBelow p'"
  by (rule spawnedBelow_frame) (simp_all add: thunkEnds_frame)

lemma thunkMoves_spawnedBelow:
  "thunkMoves r i p = Inr p' \<Longrightarrow> spawnedBelow p \<Longrightarrow> spawnedBelow p'"
  by (rule spawnedBelow_frame) (simp_all add: thunkMoves_frame)

lemma poolStep_spawnedBelow:
  "poolStep invoke e p = Inr p' \<Longrightarrow> spawnedBelow p \<Longrightarrow> spawnedBelow p'"
proof (cases e)
  case Dispatcher
  then show "poolStep invoke e p = Inr p' \<Longrightarrow> spawnedBelow p \<Longrightarrow> spawnedBelow p'"
    by (simp add: dispatcher_spawnedBelow)
next
  case (Worker i)
  then show "poolStep invoke e p = Inr p' \<Longrightarrow> spawnedBelow p \<Longrightarrow> spawnedBelow p'"
    by (simp add: worker_spawnedBelow)
next
  case (ThunkEnds i out)
  then show "poolStep invoke e p = Inr p' \<Longrightarrow> spawnedBelow p \<Longrightarrow> spawnedBelow p'"
    by (simp add: thunkEnds_spawnedBelow)
next
  case (ThunkMoves i r)
  then show "poolStep invoke e p = Inr p' \<Longrightarrow> spawnedBelow p \<Longrightarrow> spawnedBelow p'"
    by (simp add: thunkMoves_spawnedBelow)
qed (auto simp: spawnedBelow_def schedule_push_def schedule_count_def schedule_signal_def
       wait_def split: if_splits)

lemma poolStep_length:
  "poolStep invoke e p = Inr p' \<Longrightarrow> spawnedBelow p \<Longrightarrow>
   length (workerVector p') = length (workerVector p)"
proof (cases e)
  case Dispatcher
  assume a: "poolStep invoke e p = Inr p'" and s: "spawnedBelow p"
  show ?thesis
  proof (cases "dispatcherThread p")
    case SelectWorker
    from a Dispatcher SelectWorker obtain w q where sel: "selectWorker 0 p = Inr (w, q)"
      and p': "p' = q\<lparr>dispatcherThread := PopThunk (nat w)\<rparr>"
      by (auto simp: dispatcher_def split: sum.splits prod.splits if_splits)
    from selectWorker_spawnedBelow [OF sel s] p' show ?thesis by simp
  qed (use a Dispatcher in \<open>auto simp: dispatcher_def split: if_splits list.splits\<close>)
next
  case (Worker i)
  then show "poolStep invoke e p = Inr p' \<Longrightarrow> ?thesis"
    by (simp add: worker_frame)
next
  case (ThunkEnds i out)
  then show "poolStep invoke e p = Inr p' \<Longrightarrow> ?thesis"
    by (simp add: thunkEnds_frame)
next
  case (ThunkMoves i r)
  then show "poolStep invoke e p = Inr p' \<Longrightarrow> ?thesis"
    by (simp add: thunkMoves_frame)
qed (auto simp: schedule_push_def schedule_count_def schedule_signal_def wait_def split: if_splits)

lemma poolRun_spawnedBelow:
  "poolRun invoke es p = Inr p' \<Longrightarrow> spawnedBelow p \<Longrightarrow>
   spawnedBelow p' \<and> length (workerVector p') = length (workerVector p)"
proof (induction es arbitrary: p)
  case (Cons e es)
  from Cons.prems(1) obtain q where q: "poolStep invoke e p = Inr q"
    and r: "poolRun invoke es q = Inr p'"
    by (auto split: sum.splits)
  from Cons.IH [OF r poolStep_spawnedBelow [OF q Cons.prems(2)]]
    poolStep_length [OF q Cons.prems(2)]
  show ?case by simp
qed simp

lemma selectWorker_no_fault:
  "spawnedBelow p \<Longrightarrow> int (length (workerVector p)) \<le> INT_MAX \<Longrightarrow>
   \<exists>a p'. selectWorker c p = Inr (a, p')"
proof (induction c p rule: selectWorker.induct)
  case (1 c p)
  show ?case
  proof (cases "c < length (workerVector p)")
    case False
    then show ?thesis by (simp add: selectWorker.simps [of c p])
  next
    case True
    let ?q = "if int c = nextSpawnID p then spawn p else Inr p"
    have "\<exists>q. ?q = Inr q"
    proof (cases "int c = nextSpawnID p")
      case eq: True
      with "1.prems" True have "workerThread (workerVector p ! c) = NotSpawned"
        by (simp add: spawnedBelow_def)
      moreover from eq have "nat (nextSpawnID p) = c" by simp
      ultimately show ?thesis using eq True "1.prems"(2)
        unfolding spawn_def INT_MAX_def by auto
    qed simp
    then obtain q where q: "?q = Inr q" ..
    have sq: "spawnedBelow q" and lq: "length (workerVector q) = length (workerVector p)"
      using q "1.prems"(1) by (auto split: if_splits dest: spawn_spawnedBelow spawn_length)
    show ?thesis
    proof (cases "workerInUse (workerVector q ! c)")
      case False
      with True q show ?thesis by (simp add: selectWorker.simps [of c p])
    next
      case inUse: True
      from "1.IH" [OF True q _ sq] inUse lq "1.prems"(2)
      obtain a p' where "selectWorker (Suc c) q = Inr (a, p')" by auto
      with True q inUse show ?thesis by (simp add: selectWorker.simps [of c p])
    qed
  qed
qed

text \<open>
  C5. Whatever is scheduled on a pool constructed for \<open>M\<close> threads, and however its
  threads interleave: \<^verbatim>\<open>nextSpawnID\<close> stays between 0 and \<open>M\<close>, the vector keeps its \<open>M\<close>
  slots, and the slots whose worker thread has been created are exactly those below
  \<^verbatim>\<open>nextSpawnID\<close>. So at most \<open>M\<close> workers are ever created, each at an index below \<open>M\<close>:
  as long as \<open>M\<close> fits an \<^verbatim>\<open>int\<close>, the loop of the dispatcher, entered at any index, creates
  a worker only in a slot of the vector that has none.
\<close>

theorem at_most_M_workers:
  assumes "poolRun invoke es (ThreadPool_new M) = Inr p"
  shows "0 \<le> nextSpawnID p \<and> nextSpawnID p \<le> int M \<and> length (workerVector p) = M \<and>
         (\<forall>i < M. workerThread (workerVector p ! i) \<noteq> NotSpawned \<longleftrightarrow> int i < nextSpawnID p) \<and>
         (int M \<le> INT_MAX \<longrightarrow> (\<forall>c. \<exists>a p'. selectWorker c p = Inr (a, p')))"
proof -
  from poolRun_spawnedBelow [OF assms spawnedBelow_new]
  have sb: "spawnedBelow p" and len: "length (workerVector p) = M"
    by (simp_all add: ThreadPool_new_def)
  have "\<exists>a p'. selectWorker c p = Inr (a, p')" if "int M \<le> INT_MAX" for c
    using sb that len by (intro selectWorker_no_fault) simp_all
  with sb len show ?thesis by (auto simp: spawnedBelow_def)
qed

theorem at_most_M_workers_witness:
  "poolRun id
     ([SchedulePush 7, ScheduleCount, ScheduleSignal] @ replicate 5 Dispatcher @ [Worker 0])
     (ThreadPool_new 1) = Inr busyPool \<and>
   nextSpawnID busyPool \<le> 1 \<and> length (workerVector busyPool) = 1 \<and>
   int 1 \<le> INT_MAX \<and> selectWorker 0 busyPool = Inr (- 1, busyPool)"
proof -
  have r: "poolRun id
     ([SchedulePush 7, ScheduleCount, ScheduleSignal] @ replicate 5 Dispatcher @ [Worker 0])
     (ThreadPool_new 1) = Inr busyPool"
    by code_simp
  have m: "int 1 \<le> INT_MAX" by (simp add: INT_MAX_def)
  have "selectWorker 0 busyPool = Inr (- 1, busyPool)" by code_simp
  with at_most_M_workers [OF r] r m show ?thesis by simp
qed

text \<open>
  C7, as amended. A thunk that returns is followed by the worker's bookkeeping: the
  counter goes down by one, the worker is marked free, \<^verbatim>\<open>workerIsAvailable\<close> is signalled and
  the worker is back at line 72. A thunk that throws ends the process: nothing in
  \<^verbatim>\<open>worker\<close> catches, and none of the bookkeeping is done.
\<close>

theorem worker_pass:
  assumes "i < length (workerVector p)"
    and "workerThread (workerVector p ! i) = Running r"
    and "pendingThunks p \<noteq> INT_MIN"
  shows "(\<exists>p'. workerPass invoke Returns i p = Inr p' \<and>
            pendingThunks p' = pendingThunks p - 1 \<and>
            \<not> workerInUse (workerVector p' ! i) \<and>
            workerIsAvailable p' = workerIsAvailable p + 1 \<and>
            workerThread (workerVector p' ! i) = AwaitThunk) \<and>
         workerPass invoke Throws i p = Inl Terminated"
  using assms
  by (simp add: workerPass_def thunkEnds_def thunkAt_def worker_def Let_def)

theorem worker_pass_witness:
  "0 < length (workerVector busyPool) \<and>
   workerThread (workerVector busyPool ! 0) = Running 7 \<and>
   pendingThunks busyPool \<noteq> INT_MIN \<and>
   workerPass id Returns 0 busyPool =
     Inr (busyPool\<lparr>workerVector := [\<lparr>workerThread = AwaitThunk, workerThunk = Some 7,
                                       thunkToExecute = 0, workerInUse = False\<rparr>],
                   pendingThunks := 0, workerIsAvailable := 1\<rparr>) \<and>
   workerPass id Throws 0 busyPool = Inl Terminated"
proof -
  have h: "0 < length (workerVector busyPool)"
    "workerThread (workerVector busyPool ! 0) = Running 7"
    "pendingThunks busyPool \<noteq> INT_MIN"
    by (simp_all add: busyPool_def INT_MIN_def)
  have "workerPass id Returns 0 busyPool =
     Inr (busyPool\<lparr>workerVector := [\<lparr>workerThread = AwaitThunk, workerThunk = Some 7,
                                       thunkToExecute = 0, workerInUse = False\<rparr>],
                   pendingThunks := 0, workerIsAvailable := 1\<rparr>)"
    by (simp add: busyPool_def workerPass_def thunkEnds_def thunkAt_def worker_def INT_MIN_def)
  with h worker_pass [OF h, of id] show ?thesis by simp
qed

text \<open>
  A pool of one worker runs its first thunk, and the thunk throws: the process ends, and
  the three bookkeeping steps the worker would have taken next are never reached.
\<close>

theorem throwing_thunk_ends_process:
  "poolRun id
     ([SchedulePush 7, ScheduleCount, ScheduleSignal] @ replicate 5 Dispatcher @
      [Worker 0, ThunkEnds 0 Throws, Worker 0, Worker 0, Worker 0])
     (ThreadPool_new 1 :: (nat, nat) ThreadPool) = Inl Terminated"
  by code_simp

text \<open>
  C3. Two clients of a pool of one worker. Client 0 has pushed its thunk 1 and not yet
  counted it when client 1 pushes thunk 2, counts it and signals. The dispatcher hands
  out the head of the queue, thunk 1; the worker runs it and counts it off, against the
  count that client 1 made. The counter is zero, and the \<^verbatim>\<open>wait\<close> of client 1 returns,
  while thunk 2, whose \<^verbatim>\<open>schedule\<close> had returned before, is still in the queue.
\<close>

theorem wait_returns_with_own_thunk_queued:
  "acts id
     ([Client 0, Client 1, Client 1, Client 1] @ replicate 5 PoolDispatcher @
      [PoolWorker 0, Thunk 0 Returns, PoolWorker 0, Client 1])
     \<lparr>clients = [calls [Schedule 1], calls [Schedule 2, Wait]], thePool = ThreadPool_new 1\<rparr> =
   Inr \<lparr>clients = [[ScheduleCount, ScheduleSignal], []],
        thePool =
          \<lparr>workerVector = [\<lparr>workerThread = Release, workerThunk = Some (1::nat),
                             thunkToExecute = 0, workerInUse = True\<rparr>],
           dispatcherThread = AwaitNewThunk, thunkQueue = [2], nextSpawnID = 1,
           pendingThunks = 0, exitFlag = False, workerIsAvailable = 0,
           newThunkFromScheduler = 0\<rparr> :: (nat, nat) ThreadPool\<rparr>"
  by code_simp

text \<open>
  What is right in the pool: \<^verbatim>\<open>wait\<close> returns only on a counter of zero, and changes nothing.
\<close>

lemma wait_returns_at_zero: "wait p = Inr p' \<Longrightarrow> pendingThunks p = 0 \<and> p' = p"
  by (auto simp: wait_def split: if_splits)

text \<open>
  The same in the aggregator, where the feed thunks are the clients of the article pool:
  the thunk of feed f2, on worker 1 of the feed pool, has come back from
  \<^verbatim>\<open>articlePool.wait()\<close> and from \<^verbatim>\<open>launchArticlePool\<close>, and its article is still in the queue of
  the article pool, not fetched.
\<close>

lemma launchArticlePool_returns_early:
  "case run twoFeedsWeb earlyReturnSchedule
          ((NewsAggregator_new ''list'')\<lparr>mainThread := FeedLoop [(''f1'', ''One''), (''f2'', ''Two'')]\<rparr>) of
     Inl f \<Rightarrow> False
   | Inr s \<Rightarrow>
       workerThread (workerVector (feedPool s) ! 1) = CountDown \<and>
       thunkQueue (articlePool s) = [\<lparr>title = ''B'', url = ''http://b.com/2''\<rparr>] \<and>
       pendingThunks (articlePool s) = 0 \<and>
       seenURLs s = {''http://a.com/1'', ''f2'', ''f1''}"
  by code_simp

section \<open>The run as a whole\<close>

lemma feedThunk_built: "feedThunk web i pc s = Inr s' \<Longrightarrow> built s' = built s"
  unfolding feedThunk_def
  by (auto split: feedPc.splits prod.splits if_splits option.splits list.splits sum.splits)

lemma articleThunk_built: "articleThunk web i pc s = Inr s' \<Longrightarrow> built s' = built s"
  unfolding articleThunk_def
  by (auto split: articlePc.splits prod.splits if_splits option.splits)

lemma mainStep_built: "mainStep s = Inr s' \<Longrightarrow> built s' = built s"
  unfolding mainStep_def
  by (auto split: mainPc.splits list.splits sum.splits)

lemma step_built: "step web t s = Inr s' \<Longrightarrow> built s' = built s"
proof (cases t)
  case MainThread
  then show "step web t s = Inr s' \<Longrightarrow> ?thesis" by (simp add: mainStep_built)
next
  case (DispatcherThread pl)
  then show "step web t s = Inr s' \<Longrightarrow> ?thesis"
    by (cases pl) (auto split: sum.splits)
next
  case (WorkerThread pl i)
  then show "step web t s = Inr s' \<Longrightarrow> ?thesis"
    by (cases pl)
       (auto split: sum.splits if_splits workerPc.splits
             dest: feedThunk_built articleThunk_built)
qed

lemma run_built: "run web ts s = Inr s' \<Longrightarrow> built s' = built s"
  by (induction ts arbitrary: s) (auto split: sum.splits dest: step_built)

lemma processAllFeeds_built: "processAllFeeds web sched s = Inr s' \<Longrightarrow> built s' = built s"
  unfolding processAllFeeds_def launchFeedPool_def
  by (auto split: option.splits if_splits sum.splits dest: run_built)

lemma buildIndex_built: "buildIndex web sched s = Inr s' \<Longrightarrow> built s'"
  unfolding buildIndex_def
  by (auto split: if_splits dest: processAllFeeds_built)

text \<open>
  C6. When the feed list fails to parse, or parses to no feed at all, \<^verbatim>\<open>processAllFeeds\<close>
  returns normally and leaves the aggregator as it found it, whatever the threads would
  do: nothing has been scheduled on either pool and nothing added to the index.
  \<^verbatim>\<open>buildIndex\<close> then returns normally too, having changed nothing but the flag \<^verbatim>\<open>built\<close>;
  the index of a new aggregator is still empty afterwards.
\<close>

theorem no_feeds_empty_index:
  assumes "rssFeedList web (rssFeedListURI s) = None \<or> rssFeedList web (rssFeedListURI s) = Some []"
    and "\<not> built s"
  shows "processAllFeeds web sched s = Inr s \<and>
         buildIndex web sched s = Inr (s\<lparr>built := True\<rparr>)"
proof -
  have "processAllFeeds web sched' s' = Inr s'"
    if "rssFeedListURI s' = rssFeedListURI s" for s' sched'
    using assms(1) that by (auto simp: processAllFeeds_def)
  from this [of s sched] this [of "s\<lparr>built := True\<rparr>" sched] assms(2)
  show ?thesis by (simp add: buildIndex_def)
qed

theorem no_feeds_empty_index_witness:
  "(rssFeedList deadWeb (rssFeedListURI (NewsAggregator_new ''list'')) = None \<or>
    rssFeedList deadWeb (rssFeedListURI (NewsAggregator_new ''list'')) = Some []) \<and>
   \<not> built (NewsAggregator_new ''list'') \<and>
   buildIndex deadWeb exampleSchedule (NewsAggregator_new ''list'') =
     Inr ((NewsAggregator_new ''list'')\<lparr>built := True\<rparr>) \<and>
   index ((NewsAggregator_new ''list'')\<lparr>built := True\<rparr>) = [] \<and>
   feedPool ((NewsAggregator_new ''list'')\<lparr>built := True\<rparr>) = ThreadPool_new kNumFeedWorkers \<and>
   articlePool ((NewsAggregator_new ''list'')\<lparr>built := True\<rparr>) = ThreadPool_new kNumArticleWorkers"
proof -
  have h: "rssFeedList deadWeb (rssFeedListURI (NewsAggregator_new ''list'')) = None \<or>
           rssFeedList deadWeb (rssFeedListURI (NewsAggregator_new ''list'')) = Some []"
    "\<not> built (NewsAggregator_new ''list'')"
    by (simp_all add: deadWeb_def NewsAggregator_new_def)
  from no_feeds_empty_index [OF h, of exampleSchedule] h show ?thesis
    by (simp add: NewsAggregator_new_def)
qed

text \<open>
  C8. After a call of \<^verbatim>\<open>buildIndex\<close> that returned, a second call on the same aggregator
  returns at once and leaves every field, the index among them, as it was: whatever the
  collaborators would answer now, nothing is asked of them and no thread takes a step.
\<close>

theorem second_buildIndex_is_noop:
  assumes "buildIndex web sched s = Inr s1"
  shows "buildIndex web' sched' s1 = Inr s1"
  using buildIndex_built [OF assms] by (simp add: buildIndex_def)

lemma example_run:
  "case buildIndex exampleWeb exampleSchedule (NewsAggregator_new ''list'') of
     Inl f \<Rightarrow> False
   | Inr s \<Rightarrow> index s = [(\<lparr>title = ''X'', url = ''http://a.com/1''\<rparr>, [''b'', ''c''])]"
  by code_simp

theorem second_buildIndex_is_noop_witness:
  "case buildIndex exampleWeb exampleSchedule (NewsAggregator_new ''list'') of
     Inl f \<Rightarrow> False
   | Inr s \<Rightarrow>
       index s = [(\<lparr>title = ''X'', url = ''http://a.com/1''\<rparr>, [''b'', ''c''])] \<and>
       buildIndex exampleWeb exampleSchedule s = Inr s"
proof -
  from example_run obtain s
    where r: "buildIndex exampleWeb exampleSchedule (NewsAggregator_new ''list'') = Inr s"
      and i: "index s = [(\<lparr>title = ''X'', url = ''http://a.com/1''\<rparr>, [''b'', ''c''])]"
    by (cases "buildIndex exampleWeb exampleSchedule (NewsAggregator_new ''list'')") auto
  from second_buildIndex_is_noop [OF r, of exampleWeb exampleSchedule] r i
  show ?thesis by simp
qed

text \<open>
  C10. \<^verbatim>\<open>built\<close> is set before the feed list is read. When the first call finds the feed
  list unparsable or empty it returns with the flag set and with the index, the seen URLs
  and the intermediate index untouched, and every later call returns at once, changing
  nothing: the failed run is not tried again, even when the feed list has become readable.
\<close>

theorem failed_run_never_retried:
  assumes "rssFeedList web (rssFeedListURI s) = None \<or> rssFeedList web (rssFeedListURI s) = Some []"
    and "\<not> built s"
  shows "\<exists>s1. buildIndex web sched s = Inr s1 \<and> built s1 \<and>
           index s1 = index s \<and> seenURLs s1 = seenURLs s \<and>
           intermediateIndex s1 = intermediateIndex s \<and>
           (\<forall>web' sched'. buildIndex web' sched' s1 = Inr s1)"
proof -
  have "processAllFeeds web sched (s\<lparr>built := True\<rparr>) = Inr (s\<lparr>built := True\<rparr>)"
    using assms(1) by (auto simp: processAllFeeds_def)
  then have "buildIndex web sched s = Inr (s\<lparr>built := True\<rparr>)"
    using assms(2) by (simp add: buildIndex_def)
  moreover have "buildIndex web' sched' (s\<lparr>built := True\<rparr>) = Inr (s\<lparr>built := True\<rparr>)"
    for web' sched'
    by (simp add: buildIndex_def)
  ultimately show ?thesis by simp
qed

theorem failed_run_never_retried_witness:
  "(rssFeedList deadWeb (rssFeedListURI (NewsAggregator_new ''list'')) = None \<or>
    rssFeedList deadWeb (rssFeedListURI (NewsAggregator_new ''list'')) = Some []) \<and>
   \<not> built (NewsAggregator_new ''list'') \<and>
   buildIndex deadWeb [] (NewsAggregator_new ''list'') =
     Inr ((NewsAggregator_new ''list'')\<lparr>built := True\<rparr>) \<and>
   buildIndex exampleWeb exampleSchedule ((NewsAggregator_new ''list'')\<lparr>built := True\<rparr>) =
     Inr ((NewsAggregator_new ''list'')\<lparr>built := True\<rparr>)"
proof -
  have h: "rssFeedList deadWeb (rssFeedListURI (NewsAggregator_new ''list'')) = None \<or>
           rssFeedList deadWeb (rssFeedListURI (NewsAggregator_new ''list'')) = Some []"
    "\<not> built (NewsAggregator_new ''list'')"
    by (simp_all add: deadWeb_def NewsAggregator_new_def)
  have b: "buildIndex deadWeb [] (NewsAggregator_new ''list'') =
     Inr ((NewsAggregator_new ''list'')\<lparr>built := True\<rparr>)"
    using h by (auto simp: buildIndex_def processAllFeeds_def)
  from failed_run_never_retried [OF h, of "[]"] b h show ?thesis by auto
qed

section \<open>The barrier before the flush\<close>


lemma sum_list_map_update:
  fixes g :: "'a \<Rightarrow> nat"
  assumes "i < length ws"
  shows "int (sum_list (map g (ws[i := w]))) = int (sum_list (map g ws)) + int (g w) - int (g (ws ! i))"
  using assms
proof (induction ws arbitrary: i)
  case (Cons a ws)
  then show ?case by (cases i) auto
qed simp

lemma map_update_same: "g w = g (ws ! i) \<Longrightarrow> map g (ws[i := w]) = map g ws"
  by (cases "i < length ws") (auto simp: map_update list_update_same_conv list_update_beyond)

lemma tally_update:
  assumes "i < length (workerVector p)"
  shows "int (tally g (p\<lparr>workerVector := (workerVector p)[i := w]\<rparr>)) =
         int (tally g p) + int (g w) - int (g (workerVector p ! i))"
  using assms by (simp add: tally_def sum_list_map_update)

lemma tally_zero_nth:
  "tally g p = 0 \<Longrightarrow> i < length (workerVector p) \<Longrightarrow> g (workerVector p ! i) = 0"
  by (simp add: tally_def)

lemma tally_cong_map:
  "map g (workerVector p') = map g (workerVector p) \<Longrightarrow> tally g p' = tally g p"
  by (simp add: tally_def)


lemma spawn_fields:
  assumes "spawn p = Inr p'"
  shows "thunkQueue p' = thunkQueue p" "pendingThunks p' = pendingThunks p"
    "exitFlag p' = exitFlag p" "dispatcherThread p' = dispatcherThread p"
    "workerIsAvailable p' = workerIsAvailable p"
    "newThunkFromScheduler p' = newThunkFromScheduler p"
  using assms by (auto simp: spawn_def split: if_splits)

lemma spawn_map:
  assumes "spawn p = Inr p'"
    and "\<And>w. workerThread w = NotSpawned \<Longrightarrow> g (w\<lparr>workerThread := AwaitThunk\<rparr>) = g w"
  shows "map g (workerVector p') = map g (workerVector p)"
  using assms
  by (auto simp: spawn_def map_update list_update_same_conv split: if_splits)

lemma selectWorker_fields:
  "selectWorker c p = Inr (a, p') \<Longrightarrow>
   thunkQueue p' = thunkQueue p \<and> pendingThunks p' = pendingThunks p \<and>
   exitFlag p' = exitFlag p \<and> dispatcherThread p' = dispatcherThread p \<and>
   length (workerVector p') = length (workerVector p) \<and> a < int (length (workerVector p))"
proof (induction c p rule: selectWorker.induct)
  case (1 c p)
  show ?case
  proof (cases "c < length (workerVector p)")
    case False
    with "1.prems" show ?thesis by (simp add: selectWorker.simps [of c p])
  next
    case True
    let ?q = "if int c = nextSpawnID p then spawn p else Inr p"
    from "1.prems"(1) True obtain q where q: "?q = Inr q"
      by (cases ?q) (auto simp: selectWorker.simps [of c p])
    have fq: "thunkQueue q = thunkQueue p \<and> pendingThunks q = pendingThunks p \<and>
        exitFlag q = exitFlag p \<and> dispatcherThread q = dispatcherThread p \<and>
        length (workerVector q) = length (workerVector p)"
      using q by (auto split: if_splits dest: spawn_fields spawn_length)
    show ?thesis
    proof (cases "workerInUse (workerVector q ! c)")
      case False
      with "1.prems"(1) True q
      have "p' = q\<lparr>workerVector := (workerVector q)[c := (workerVector q ! c)\<lparr>workerInUse := True\<rparr>]\<rparr>"
        and "a = int c"
        by (simp_all add: selectWorker.simps [of c p])
      then show ?thesis using fq True by simp
    next
      case inUse: True
      with "1.prems"(1) True q have rec: "selectWorker (Suc c) q = Inr (a, p')"
        by (simp add: selectWorker.simps [of c p])
      from "1.IH" [OF True q _ rec] inUse fq show ?thesis by simp
    qed
  qed
qed

lemma selectWorker_map:
  assumes "selectWorker c p = Inr (a, p')"
    and "\<And>w. workerThread w = NotSpawned \<Longrightarrow> g (w\<lparr>workerThread := AwaitThunk\<rparr>) = g w"
    and "\<And>w. g (w\<lparr>workerInUse := True\<rparr>) = g w"
  shows "map g (workerVector p') = map g (workerVector p)"
  using assms(1)
proof (induction c p rule: selectWorker.induct)
  case (1 c p)
  show ?case
  proof (cases "c < length (workerVector p)")
    case False
    with "1.prems" show ?thesis by (simp add: selectWorker.simps [of c p])
  next
    case True
    let ?q = "if int c = nextSpawnID p then spawn p else Inr p"
    from "1.prems"(1) True obtain q where q: "?q = Inr q"
      by (cases ?q) (auto simp: selectWorker.simps [of c p])
    have mq: "map g (workerVector q) = map g (workerVector p)"
      using q assms(2) by (auto split: if_splits dest: spawn_map)
    show ?thesis
    proof (cases "workerInUse (workerVector q ! c)")
      case False
      with "1.prems"(1) True q
      have "p' = q\<lparr>workerVector := (workerVector q)[c := (workerVector q ! c)\<lparr>workerInUse := True\<rparr>]\<rparr>"
        by (simp add: selectWorker.simps [of c p])
      then have "map g (workerVector p') = (map g (workerVector q))[c := g (workerVector q ! c)]"
        by (simp add: map_update assms(3))
      also have "\<dots> = map g (workerVector q)"
        by (cases "c < length (workerVector q)") (simp_all add: list_update_same_conv list_update_beyond)
      finally show ?thesis using mq by simp
    next
      case inUse: True
      with "1.prems"(1) True q have rec: "selectWorker (Suc c) q = Inr (a, p')"
        by (simp add: selectWorker.simps [of c p])
      from "1.IH" [OF True q _ rec] inUse mq show ?thesis by simp
    qed
  qed
qed



lemma holding_simps [simp]:
  "holding (w\<lparr>workerInUse := b\<rparr>) = holding w"
  "holding (w\<lparr>workerThread := pc\<rparr>) = thunkToExecute w + busy pc"
  "holding (w\<lparr>workerThunk := t\<rparr>) = holding w"
  "holding (w\<lparr>thunkToExecute := n\<rparr>) = n + busy (workerThread w)"
  by (simp_all add: holding_def)

lemma dispatcher_effect:
  assumes "dispatcher p = Inr p'" and "\<not> exitFlag p"
  shows "pendingThunks p' = pendingThunks p \<and> exitFlag p' = exitFlag p \<and>
         outstanding p' = outstanding p"
proof (cases "dispatcherThread p")
  case SelectWorker
  from assms(1) SelectWorker obtain a q where sel: "selectWorker 0 p = Inr (a, q)"
    and p': "p' = q\<lparr>dispatcherThread := PopThunk (nat a)\<rparr>"
    by (auto simp: dispatcher_def split: sum.splits prod.splits if_splits)
  have "map holding (workerVector q) = map holding (workerVector p)"
    using sel by (rule selectWorker_map) (simp_all add: holding_def)
  then have "tally holding q = tally holding p" by (rule tally_cong_map)
  with selectWorker_fields [OF sel] p' SelectWorker show ?thesis
    by (simp add: outstanding_def tally_def)
next
  case (AssignThunk w t)
  with assms(1) have w: "w < length (workerVector p)"
    and p': "p' = p\<lparr>workerVector := (workerVector p)[w := (workerVector p ! w)
                   \<lparr>workerThunk := Some t,
                    thunkToExecute := thunkToExecute (workerVector p ! w) + 1\<rparr>],
                 dispatcherThread := AwaitNewThunk\<rparr>"
    by (auto simp: dispatcher_def split: if_splits)
  have "int (tally holding p') = int (tally holding p) + 1"
    unfolding p' using tally_update [OF w, of holding] by (simp add: tally_def holding_def)
  then show ?thesis using AssignThunk p' by (simp add: outstanding_def)
qed (use assms in \<open>auto simp: dispatcher_def outstanding_def tally_def split: if_splits list.splits\<close>)

lemma dispatcher_tally:
  assumes "dispatcher p = Inr p'"
  shows "tally (m \<circ> workerThread) p' = tally (m \<circ> workerThread) p \<or> m NotSpawned \<noteq> m AwaitThunk"
proof (cases "dispatcherThread p")
  case SelectWorker
  from assms(1) SelectWorker obtain a q where sel: "selectWorker 0 p = Inr (a, q)"
    and p': "p' = q\<lparr>dispatcherThread := PopThunk (nat a)\<rparr>"
    by (auto simp: dispatcher_def split: sum.splits prod.splits if_splits)
  show ?thesis
  proof (cases "m NotSpawned = m AwaitThunk")
    case True
    have "map (m \<circ> workerThread) (workerVector q) = map (m \<circ> workerThread) (workerVector p)"
      using sel by (rule selectWorker_map) (simp_all add: True)
    then show ?thesis using p' by (simp add: tally_def)
  qed simp
next
  case (AssignThunk w t)
  with assms(1) have w: "w < length (workerVector p)"
    and p': "p' = p\<lparr>workerVector := (workerVector p)[w := (workerVector p ! w)
                   \<lparr>workerThunk := Some t,
                    thunkToExecute := thunkToExecute (workerVector p ! w) + 1\<rparr>],
                 dispatcherThread := AwaitNewThunk\<rparr>"
    by (auto simp: dispatcher_def split: if_splits)
  have "map (m \<circ> workerThread) (workerVector p') = map (m \<circ> workerThread) (workerVector p)"
    unfolding p' by (simp add: map_update_same)
  then show ?thesis by (simp add: tally_def)
qed (use assms in \<open>auto simp: dispatcher_def tally_def split: if_splits list.splits\<close>)

lemma worker_effect:
  assumes "worker invoke i p = Inr p'" and "\<not> exitFlag p"
  shows "exitFlag p' = exitFlag p \<and>
         pendingThunks p' - int (outstanding p') = pendingThunks p - int (outstanding p) \<and>
         (pendingThunks p' = pendingThunks p \<or> 0 < outstanding p)"
proof -
  from assms(1) have i: "i < length (workerVector p)"
    by (auto simp: worker_def split: if_splits)
  let ?w = "workerVector p ! i"
  have upd: "int (tally holding (p\<lparr>workerVector := (workerVector p)[i := w]\<rparr>)) =
      int (tally holding p) + int (holding w) - int (holding ?w)" for w
    using i by (rule tally_update)
  have pos: "0 < holding ?w \<Longrightarrow> 0 < tally holding p"
    using tally_zero_nth [OF _ i, of holding] by auto
  show ?thesis
  proof (cases "workerThread ?w")
    case AwaitThunk
    with assms i obtain t where "workerThunk ?w = Some t" "0 < thunkToExecute ?w"
      and p': "p' = p\<lparr>workerVector := (workerVector p)[i :=
                 ?w\<lparr>thunkToExecute := thunkToExecute ?w - 1,
                    workerThread := Running (invoke t)\<rparr>]\<rparr>"
      by (auto simp: worker_def Let_def split: if_splits option.splits)
    then show ?thesis using upd [of "?w\<lparr>thunkToExecute := thunkToExecute ?w - 1,
                    workerThread := Running (invoke t)\<rparr>"] AwaitThunk
      by (simp add: outstanding_def holding_def)
  next
    case CountDown
    with assms i have p': "p' = p\<lparr>pendingThunks := pendingThunks p - 1,
          workerVector := (workerVector p)[i := ?w\<lparr>workerThread := Release\<rparr>]\<rparr>"
      by (auto simp: worker_def Let_def split: if_splits)
    have "0 < holding ?w" using CountDown by (simp add: holding_def)
    then have "0 < tally holding p" by (rule pos)
    then show ?thesis using p' upd [of "?w\<lparr>workerThread := Release\<rparr>"] CountDown
      by (simp add: outstanding_def holding_def tally_def)
  next
    case Release
    with assms i have p': "p' = p\<lparr>workerVector := (workerVector p)[i :=
          ?w\<lparr>workerInUse := False, workerThread := Announce\<rparr>]\<rparr>"
      by (auto simp: worker_def Let_def split: if_splits)
    then show ?thesis using upd [of "?w\<lparr>workerInUse := False, workerThread := Announce\<rparr>"] Release
      by (simp add: outstanding_def holding_def)
  next
    case Announce
    with assms i have p': "p' = p\<lparr>workerIsAvailable := workerIsAvailable p + 1,
          workerVector := (workerVector p)[i := ?w\<lparr>workerThread := AwaitThunk\<rparr>]\<rparr>"
      by (auto simp: worker_def Let_def split: if_splits)
    then show ?thesis using upd [of "?w\<lparr>workerThread := AwaitThunk\<rparr>"] Announce
      by (simp add: outstanding_def holding_def tally_def)
  qed (use assms i in \<open>auto simp: worker_def Let_def\<close>)
qed

lemma worker_tally:
  assumes "worker invoke i p = Inr p'"
    and "\<And>t. m (Running (invoke t)) = 0" and "m AwaitThunk = 0" and "m CountDown = 0"
    and "m Release = 0" and "m Announce = 0" and "m WorkerExited = 0"
  shows "tally (m \<circ> workerThread) p' = tally (m \<circ> workerThread) p"
proof -
  from assms(1) have i: "i < length (workerVector p)"
    by (auto simp: worker_def split: if_splits)
  let ?w = "workerVector p ! i"
  from assms(1) i obtain w where p': "workerVector p' = (workerVector p)[i := w]"
    and z: "m (workerThread w) = 0" "m (workerThread ?w) = 0"
    by (cases "workerThread ?w")
       (auto simp: worker_def Let_def assms(2-7) split: if_splits option.splits)
  have "map (m \<circ> workerThread) (workerVector p') = map (m \<circ> workerThread) (workerVector p)"
    unfolding p' using z by (simp add: map_update_same)
  then show ?thesis by (rule tally_cong_map)
qed

lemma thunkAt_effect:
  assumes "i < length (workerVector p)" and "workerThread (workerVector p ! i) = Running r"
    and "busy pc = 1"
  shows "outstanding (thunkAt i pc p) = outstanding p"
    and "pendingThunks (thunkAt i pc p) = pendingThunks p"
    and "exitFlag (thunkAt i pc p) = exitFlag p"
    and "int (tally (m \<circ> workerThread) (thunkAt i pc p)) =
         int (tally (m \<circ> workerThread) p) + int (m pc) - int (m (Running r))"
proof -
  have "int (tally holding (thunkAt i pc p)) = int (tally holding p)"
    unfolding thunkAt_def using tally_update [OF assms(1), of holding] assms(2,3)
    by (simp add: holding_def)
  then show "outstanding (thunkAt i pc p) = outstanding p"
    by (simp add: outstanding_def thunkAt_def)
  show "int (tally (m \<circ> workerThread) (thunkAt i pc p)) =
         int (tally (m \<circ> workerThread) p) + int (m pc) - int (m (Running r))"
    unfolding thunkAt_def using tally_update [OF assms(1), of "m \<circ> workerThread"] assms(2)
    by simp
qed (simp_all add: thunkAt_def)

lemma schedule_effect:
  "outstanding (schedule_push t p) = outstanding p + 1"
  "pendingThunks (schedule_push t p) = pendingThunks p"
  "exitFlag (schedule_push t p) = exitFlag p"
  "outstanding (schedule_signal p) = outstanding p"
  "pendingThunks (schedule_signal p) = pendingThunks p"
  "exitFlag (schedule_signal p) = exitFlag p"
  "tally g (schedule_push t p) = tally g p"
  "tally g (schedule_signal p) = tally g p"
  by (simp_all add: schedule_push_def schedule_signal_def outstanding_def tally_def)

lemma schedule_count_effect:
  assumes "schedule_count p = Inr p'"
  shows "outstanding p' = outstanding p \<and> pendingThunks p' = pendingThunks p + 1 \<and>
         exitFlag p' = exitFlag p \<and> tally g p' = tally g p"
  using assms by (auto simp: schedule_count_def outstanding_def tally_def split: if_splits)

lemma uncounted_le_inLaunch: "uncounted pc \<le> inLaunch pc"
  by (cases pc rule: inLaunch.cases) simp_all

lemma noLaunch_noUncounted:
  assumes "tally (inLaunch \<circ> workerThread) p = 0"
  shows "tally (uncounted \<circ> workerThread) p = 0"
proof -
  have "sum_list (map (uncounted \<circ> workerThread) (workerVector p)) \<le>
        sum_list (map (inLaunch \<circ> workerThread) (workerVector p))"
    by (rule sum_list_mono) (simp add: uncounted_le_inLaunch)
  with assms show ?thesis unfolding tally_def by linarith
qed

lemma outstanding_zero_tallies:
  assumes "outstanding p = 0"
  shows "tally (inLaunch \<circ> workerThread) p = 0"
proof -
  have "inLaunch (workerThread w) \<le> holding w" for w :: "('t, feedPc) workerStruct"
    by (cases "workerThread w" rule: inLaunch.cases) (simp_all add: holding_def)
  then have "sum_list (map (inLaunch \<circ> workerThread) (workerVector p)) \<le>
        sum_list (map holding (workerVector p))"
    by (intro sum_list_mono) simp
  with assms show ?thesis unfolding tally_def outstanding_def by linarith
qed

lemma barrier_main:
  assumes b: "barrier s" and st: "mainStep s = Inr s'"
  shows "barrier s'"
proof (cases "mainThread s")
  case (FeedLoop feeds)
  show ?thesis
  proof (cases feeds)
    case Nil
    with st FeedLoop have "s' = s\<lparr>mainThread := FeedWait\<rparr>" by (simp add: mainStep_def)
    with b FeedLoop show ?thesis by (simp add: barrier_def)
  next
    case (Cons f rest)
    with st FeedLoop have "s' = s\<lparr>feedPool := schedule_push f (feedPool s), mainThread := FeedCount rest\<rparr>"
      by (simp add: mainStep_def)
    with b FeedLoop show ?thesis by (simp add: barrier_def schedule_effect)
  qed
next
  case (FeedCount rest)
  with st obtain p where p: "schedule_count (feedPool s) = Inr p"
    and s': "s' = s\<lparr>feedPool := p, mainThread := FeedSignal rest\<rparr>"
    by (auto simp: mainStep_def split: sum.splits)
  from schedule_count_effect [OF p] b FeedCount s' show ?thesis
    by (simp add: barrier_def)
next
  case (FeedSignal rest)
  with st have "s' = s\<lparr>feedPool := schedule_signal (feedPool s), mainThread := FeedLoop rest\<rparr>"
    by (simp add: mainStep_def)
  with b FeedSignal show ?thesis by (simp add: barrier_def schedule_effect)
next
  case FeedWait
  with st have "pendingThunks (feedPool s) = 0" and "s' = s\<lparr>mainThread := Returned\<rparr>"
    by (auto simp: mainStep_def wait_def split: if_splits)
  with b FeedWait show ?thesis by (simp add: barrier_def)
qed (use st in \<open>auto simp: mainStep_def\<close>)

lemma barrier_feedDispatcher:
  assumes b: "barrier s" and st: "dispatcher (feedPool s) = Inr p"
  shows "barrier (s\<lparr>feedPool := p\<rparr>)"
proof -
  from b have ne: "\<not> exitFlag (feedPool s)" by (simp add: barrier_def)
  have "tally (uncounted \<circ> workerThread) p = tally (uncounted \<circ> workerThread) (feedPool s)"
    and "tally (inLaunch \<circ> workerThread) p = tally (inLaunch \<circ> workerThread) (feedPool s)"
    using dispatcher_tally [OF st, of uncounted] dispatcher_tally [OF st, of inLaunch] by simp_all
  with dispatcher_effect [OF st ne] b show ?thesis by (simp add: barrier_def)
qed

lemma barrier_articleDispatcher:
  assumes b: "barrier s" and st: "dispatcher (articlePool s) = Inr p"
  shows "barrier (s\<lparr>articlePool := p\<rparr>)"
proof -
  from b have ne: "\<not> exitFlag (articlePool s)" by (simp add: barrier_def)
  with dispatcher_effect [OF st ne] b show ?thesis by (simp add: barrier_def)
qed

lemma barrier_feedWorker:
  assumes b: "barrier s" and st: "worker FeedClaim i (feedPool s) = Inr p"
  shows "barrier (s\<lparr>feedPool := p\<rparr>)"
proof -
  from b have ne: "\<not> exitFlag (feedPool s)" by (simp add: barrier_def)
  have u: "tally (uncounted \<circ> workerThread) p = tally (uncounted \<circ> workerThread) (feedPool s)"
    using st by (rule worker_tally) simp_all
  have l: "tally (inLaunch \<circ> workerThread) p = tally (inLaunch \<circ> workerThread) (feedPool s)"
    using st by (rule worker_tally) simp_all
  from worker_effect [OF st ne]
  have e: "exitFlag p = exitFlag (feedPool s)"
    and led: "pendingThunks p - int (outstanding p) =
              pendingThunks (feedPool s) - int (outstanding (feedPool s))"
    and pen: "pendingThunks p = pendingThunks (feedPool s) \<or> 0 < outstanding (feedPool s)"
    by simp_all
  have "pendingThunks p = 0" if "mainThread s = Returned"
  proof -
    from b that have "pendingThunks (feedPool s) = 0" "outstanding (feedPool s) = 0"
      by (simp_all add: barrier_def)
    with pen show ?thesis by simp
  qed
  with b e led u l show ?thesis by (simp add: barrier_def)
qed

lemma barrier_articleWorker:
  assumes b: "barrier s" and st: "worker ArticleClaim i (articlePool s) = Inr p"
  shows "barrier (s\<lparr>articlePool := p\<rparr>)"
proof -
  from b have ne: "\<not> exitFlag (articlePool s)" by (simp add: barrier_def)
  from worker_effect [OF st ne]
  have e: "exitFlag p = exitFlag (articlePool s)"
    and led: "pendingThunks p - int (outstanding p) =
              pendingThunks (articlePool s) - int (outstanding (articlePool s))"
    and pen: "pendingThunks p = pendingThunks (articlePool s) \<or> 0 < outstanding (articlePool s)"
    by simp_all
  have "pendingThunks p = 0" if nl: "tally (inLaunch \<circ> workerThread) (feedPool s) = 0"
  proof -
    from noLaunch_noUncounted [OF nl] b nl
    have "pendingThunks (articlePool s) = 0" "outstanding (articlePool s) = 0"
      by (simp_all add: barrier_def)
    with pen show ?thesis by simp
  qed
  with b e led show ?thesis by (simp add: barrier_def)
qed

lemma barrier_articleThunk:
  assumes b: "barrier s" and i: "i < length (workerVector (articlePool s))"
    and r: "workerThread (workerVector (articlePool s) ! i) = Running pc"
    and st: "articleThunk web i pc s = Inr s'"
  shows "barrier s'"
proof -
  have key: "barrier (s\<lparr>articlePool := thunkAt i pc' (articlePool s)\<rparr>) \<and>
      barrier (s\<lparr>seenURLs := seen, articlePool := thunkAt i pc' (articlePool s)\<rparr>) \<and>
      barrier (s\<lparr>intermediateIndex := idx, articlePool := thunkAt i pc' (articlePool s)\<rparr>)"
    if "busy pc' = 1" for pc' seen idx
    using thunkAt_effect(1-3) [OF i r that] b by (simp add: barrier_def)
  from st show ?thesis
    unfolding articleThunk_def
    by (auto split: articlePc.splits prod.splits if_splits option.splits simp: key)
qed

lemma barrier_feedThunk:
  assumes b: "barrier s" and i: "i < length (workerVector (feedPool s))"
    and r: "workerThread (workerVector (feedPool s) ! i) = Running pc"
    and st: "feedThunk web i pc s = Inr s'"
  shows "barrier s'"
proof -
  let ?F = "feedPool s" and ?A = "articlePool s"
  let ?U = "tally (uncounted \<circ> workerThread)" and ?L = "tally (inLaunch \<circ> workerThread)"
  note eff = thunkAt_effect [OF i r]
  have Lpos: "0 < ?L ?F" if "inLaunch (Running pc) = 1"
    using tally_zero_nth [OF _ i, of "inLaunch \<circ> workerThread"] r that by auto
  from b have bF: "\<not> exitFlag ?F" "\<not> exitFlag ?A"
    and jF: "pendingThunks ?F + int (uncountedFeed (mainThread s)) = int (outstanding ?F)"
    and jA: "pendingThunks ?A + int (?U ?F) = int (outstanding ?A)"
    and k: "?L ?F = 0 \<Longrightarrow> pendingThunks ?A = 0"
    and ret: "mainThread s = Returned \<Longrightarrow> pendingThunks ?F = 0"
    by (simp_all add: barrier_def)
  text \<open>The thunk moves on inside the feed pool and leaves the article pool alone.\<close>
  have stay: "barrier (s\<lparr>feedPool := thunkAt i pc' ?F\<rparr>) \<and>
      barrier (s\<lparr>seenURLs := seen, feedPool := thunkAt i pc' ?F\<rparr>)"
    if bz: "busy pc' = 1" and u: "uncounted pc' = uncounted (Running pc)"
      and l: "inLaunch pc' = inLaunch (Running pc) \<or>
              (inLaunch pc' = 0 \<and> pendingThunks ?A = 0) \<or> 0 < inLaunch pc'" for pc' seen
  proof -
    have U: "?U (thunkAt i pc' ?F) = ?U ?F"
      using eff(4) [OF bz, of uncounted] u by simp
    have L: "int (?L (thunkAt i pc' ?F)) = int (?L ?F) + int (inLaunch pc') - int (inLaunch (Running pc))"
      using eff(4) [OF bz, of inLaunch] .
    have K: "pendingThunks ?A = 0" if z: "?L (thunkAt i pc' ?F) = 0"
    proof -
      from l consider "inLaunch pc' = inLaunch (Running pc)"
        | "inLaunch pc' = 0" "pendingThunks ?A = 0" | "0 < inLaunch pc'" by auto
      then show ?thesis
      proof cases
        case 1
        with L z have "?L ?F = 0" by simp
        then show ?thesis by (rule k)
      next
        case 2
        then show ?thesis by simp
      next
        case 3
        have "inLaunch (workerThread (workerVector (thunkAt i pc' ?F) ! i)) = 0"
          using tally_zero_nth [OF z, of i] i by (simp add: thunkAt_def)
        with 3 i show ?thesis by (simp add: thunkAt_def)
      qed
    qed
    show ?thesis
      using bF jF jA ret K U eff(1-3) [OF bz] by (simp add: barrier_def)
  qed
  show ?thesis
  proof (cases pc)
    case (FeedClaim f)
    with st show ?thesis
      by (auto simp: feedThunk_def stay split: prod.splits if_splits)
  next
    case (FeedParse f)
    with st show ?thesis
      by (auto simp: feedThunk_def stay split: option.splits if_splits)
  next
    case (ArticleLoop articles)
    show ?thesis
    proof (cases articles)
      case Nil
      with st ArticleLoop show ?thesis by (auto simp: feedThunk_def stay)
    next
      case (Cons a rest)
      with st ArticleLoop
      have s': "s' = s\<lparr>articlePool := schedule_push a ?A,
                      feedPool := thunkAt i (Running (ArticleCount rest)) ?F\<rparr>"
        by (simp add: feedThunk_def)
      have U: "int (?U (thunkAt i (Running (ArticleCount rest)) ?F)) = int (?U ?F) + 1"
        using eff(4) [of "Running (ArticleCount rest)" uncounted] ArticleLoop by simp
      have L: "?L (thunkAt i (Running (ArticleCount rest)) ?F) = ?L ?F"
        using eff(4) [of "Running (ArticleCount rest)" inLaunch] ArticleLoop by simp
      have "0 < ?L ?F" using Lpos ArticleLoop by simp
      with bF jF jA ret U L eff(1-3) [of "Running (ArticleCount rest)"] show ?thesis
        unfolding s' by (simp add: barrier_def schedule_effect)
    qed
  next
    case (ArticleCount rest)
    with st obtain p where p: "schedule_count ?A = Inr p"
      and s': "s' = s\<lparr>articlePool := p,
                      feedPool := thunkAt i (Running (ArticleSignal rest)) ?F\<rparr>"
      by (auto simp: feedThunk_def split: sum.splits)
    have U: "int (?U (thunkAt i (Running (ArticleSignal rest)) ?F)) = int (?U ?F) - 1"
      using eff(4) [of "Running (ArticleSignal rest)" uncounted] ArticleCount by simp
    have L: "?L (thunkAt i (Running (ArticleSignal rest)) ?F) = ?L ?F"
      using eff(4) [of "Running (ArticleSignal rest)" inLaunch] ArticleCount by simp
    have "0 < ?L ?F" using Lpos ArticleCount by simp
    with bF jF jA ret U L eff(1-3) [of "Running (ArticleSignal rest)"]
      schedule_count_effect [OF p, of holding]
    show ?thesis unfolding s' by (simp add: barrier_def)
  next
    case (ArticleSignal rest)
    with st have s': "s' = s\<lparr>articlePool := schedule_signal ?A,
                      feedPool := thunkAt i (Running (ArticleLoop rest)) ?F\<rparr>"
      by (simp add: feedThunk_def)
    have U: "?U (thunkAt i (Running (ArticleLoop rest)) ?F) = ?U ?F"
      using eff(4) [of "Running (ArticleLoop rest)" uncounted] ArticleSignal by simp
    have L: "?L (thunkAt i (Running (ArticleLoop rest)) ?F) = ?L ?F"
      using eff(4) [of "Running (ArticleLoop rest)" inLaunch] ArticleSignal by simp
    have "0 < ?L ?F" using Lpos ArticleSignal by simp
    with bF jF jA ret U L eff(1-3) [of "Running (ArticleLoop rest)"] show ?thesis
      unfolding s' by (simp add: barrier_def schedule_effect)
  next
    case ArticleWait
    with st have "pendingThunks ?A = 0" and "s' = s\<lparr>feedPool := thunkAt i CountDown ?F\<rparr>"
      by (auto simp: feedThunk_def wait_def split: if_splits)
    with ArticleWait show ?thesis by (auto simp: stay)
  qed
qed

lemma barrier_step:
  assumes b: "barrier s" and st: "step web t s = Inr s'"
  shows "barrier s'"
proof (cases t)
  case MainThread
  with st b show ?thesis by (simp add: barrier_main)
next
  case (DispatcherThread pl)
  with st b show ?thesis
    by (cases pl) (auto split: sum.splits simp: barrier_feedDispatcher barrier_articleDispatcher)
next
  case (WorkerThread pl i)
  show ?thesis
  proof (cases pl)
    case FeedPool
    with st WorkerThread have i: "i < length (workerVector (feedPool s))"
      by (auto split: if_splits)
    show ?thesis
    proof (cases "\<exists>pc. workerThread (workerVector (feedPool s) ! i) = Running pc")
      case True
      then obtain pc where r: "workerThread (workerVector (feedPool s) ! i) = Running pc" ..
      with st WorkerThread FeedPool i have "feedThunk web i pc s = Inr s'" by simp
      from barrier_feedThunk [OF b i r this] show ?thesis .
    next
      case False
      with st WorkerThread FeedPool i obtain p where "worker FeedClaim i (feedPool s) = Inr p"
        and "s' = s\<lparr>feedPool := p\<rparr>"
        by (auto split: sum.splits workerPc.splits)
      with b show ?thesis by (simp add: barrier_feedWorker)
    qed
  next
    case ArticlePool
    with st WorkerThread have i: "i < length (workerVector (articlePool s))"
      by (auto split: if_splits)
    show ?thesis
    proof (cases "\<exists>pc. workerThread (workerVector (articlePool s) ! i) = Running pc")
      case True
      then obtain pc where r: "workerThread (workerVector (articlePool s) ! i) = Running pc" ..
      with st WorkerThread ArticlePool i have "articleThunk web i pc s = Inr s'" by simp
      from barrier_articleThunk [OF b i r this] show ?thesis .
    next
      case False
      with st WorkerThread ArticlePool i obtain p where "worker ArticleClaim i (articlePool s) = Inr p"
        and "s' = s\<lparr>articlePool := p\<rparr>"
        by (auto split: sum.splits workerPc.splits)
      with b show ?thesis by (simp add: barrier_articleWorker)
    qed
  qed
qed

lemma barrier_run: "barrier s \<Longrightarrow> run web ts s = Inr s' \<Longrightarrow> barrier s'"
  by (induction ts arbitrary: s) (auto split: sum.splits dest: barrier_step)

lemma outstanding_new: "outstanding (ThreadPool_new n) = 0"
  by (simp add: outstanding_def tally_def ThreadPool_new_def holding_def)

lemma tally_new: "tally (m \<circ> workerThread) (ThreadPool_new n) = n * m NotSpawned"
  by (simp add: tally_def ThreadPool_new_def sum_list_replicate)

lemma barrier_launch:
  assumes "feedPool s = ThreadPool_new nf" and "articlePool s = ThreadPool_new na"
  shows "barrier (s\<lparr>mainThread := FeedLoop feeds\<rparr>)"
  using assms by (simp add: barrier_def outstanding_new tally_new) (simp add: ThreadPool_new_def)

lemma outstanding_zero_idle:
  assumes "outstanding p = 0"
  shows "idle p"
proof -
  from assms have q: "thunkQueue p = []" "carried (dispatcherThread p) = 0"
    and t: "sum_list (map holding (workerVector p)) = 0"
    by (simp_all add: outstanding_def tally_def)
  from t have "\<forall>w \<in> set (workerVector p). holding w = 0" by simp
  then have "list_all (\<lambda>w. thunkToExecute w = 0 \<and> busy (workerThread w) = 0) (workerVector p)"
    by (simp add: list_all_iff holding_def)
  with q show ?thesis by (simp add: idle_def)
qed

lemma barrier_Returned:
  assumes b: "barrier s" and r: "mainThread s = Returned"
  shows "idle (feedPool s) \<and> idle (articlePool s) \<and>
         pendingThunks (feedPool s) = 0 \<and> pendingThunks (articlePool s) = 0"
proof -
  from b r have pF: "pendingThunks (feedPool s) = 0" by (simp add: barrier_def)
  with b r have oF: "outstanding (feedPool s) = 0" by (simp add: barrier_def)
  then have nl: "tally (inLaunch \<circ> workerThread) (feedPool s) = 0"
    by (rule outstanding_zero_tallies)
  with b have pA: "pendingThunks (articlePool s) = 0" by (simp add: barrier_def)
  with b noLaunch_noUncounted [OF nl] have oA: "outstanding (articlePool s) = 0"
    by (simp add: barrier_def)
  from pF pA oF oA show ?thesis by (simp add: outstanding_zero_idle)
qed

lemma idle_nth:
  "idle p \<Longrightarrow> i < length (workerVector p) \<Longrightarrow> workerThread (workerVector p ! i) \<noteq> Running pc"
  by (auto simp: idle_def list_all_length)

lemma step_after_return:
  assumes r: "mainThread s = Returned" and iF: "idle (feedPool s)" and iA: "idle (articlePool s)"
    and st: "step web t s = Inr s'"
  shows "mainThread s' = Returned \<and> intermediateIndex s' = intermediateIndex s \<and>
         seenURLs s' = seenURLs s \<and> index s' = index s"
proof (cases t)
  case MainThread
  with st r show ?thesis by (simp add: mainStep_def)
next
  case (DispatcherThread pl)
  with st r show ?thesis by (cases pl) (auto split: sum.splits)
next
  case (WorkerThread pl i)
  show ?thesis
  proof (cases pl)
    case FeedPool
    with st WorkerThread have i: "i < length (workerVector (feedPool s))"
      by (auto split: if_splits)
    from idle_nth [OF iF i] have "\<nexists>pc. workerThread (workerVector (feedPool s) ! i) = Running pc"
      by simp
    with st WorkerThread FeedPool i obtain p where "s' = s\<lparr>feedPool := p\<rparr>"
      by (auto split: sum.splits workerPc.splits)
    with r show ?thesis by simp
  next
    case ArticlePool
    with st WorkerThread have i: "i < length (workerVector (articlePool s))"
      by (auto split: if_splits)
    from idle_nth [OF iA i] have "\<nexists>pc. workerThread (workerVector (articlePool s) ! i) = Running pc"
      by simp
    with st WorkerThread ArticlePool i obtain p where "s' = s\<lparr>articlePool := p\<rparr>"
      by (auto split: sum.splits workerPc.splits)
    with r show ?thesis by simp
  qed
qed

text \<open>
  When \<^verbatim>\<open>launchFeedPool\<close> returns both pools are idle: their queues are empty, their
  dispatchers carry no thunk, no worker has a thunk waiting, running or uncounted, and
  both counters are zero. Nothing changes that afterwards: whatever steps the threads of
  the pools still take, the pools stay idle and the intermediate index and the set of seen
  URLs stay as they are.
\<close>

lemma launchFeedPool_drained:
  assumes "launchFeedPool web feeds sched s0 = Inr s"
    and "feedPool s0 = ThreadPool_new nf" and "articlePool s0 = ThreadPool_new na"
  shows "idle (feedPool s) \<and> idle (articlePool s) \<and>
         pendingThunks (feedPool s) = 0 \<and> pendingThunks (articlePool s) = 0 \<and>
         (\<forall>later s'. run web later s = Inr s' \<longrightarrow>
            idle (feedPool s') \<and> idle (articlePool s') \<and>
            intermediateIndex s' = intermediateIndex s \<and> seenURLs s' = seenURLs s)"
proof -
  from assms(1) have run: "run web sched (s0\<lparr>mainThread := FeedLoop feeds\<rparr>) = Inr s"
    and ret: "mainThread s = Returned"
    by (auto simp: launchFeedPool_def split: sum.splits if_splits)
  have b: "barrier s"
    using barrier_launch [OF assms(2,3)] run by (rule barrier_run)
  have later: "barrier s' \<and> mainThread s' = Returned \<and>
      intermediateIndex s' = intermediateIndex s \<and> seenURLs s' = seenURLs s"
    if "run web later s = Inr s'" for later s'
    using that b ret
  proof (induction later arbitrary: s)
    case Nil
    then show ?case by simp
  next
    case (Cons t ts)
    from Cons.prems(1) obtain s1 where s1: "step web t s = Inr s1"
      and rest: "run web ts s1 = Inr s'"
      by (auto split: sum.splits)
    have b1: "barrier s1" using Cons.prems(2) s1 by (rule barrier_step)
    from barrier_Returned [OF Cons.prems(2,3)] step_after_return [OF Cons.prems(3) _ _ s1]
    have k: "mainThread s1 = Returned" "intermediateIndex s1 = intermediateIndex s"
      "seenURLs s1 = seenURLs s"
      by simp_all
    from Cons.IH [OF rest b1 k(1)] k show ?case by simp
  qed
  from barrier_Returned [OF b ret] later show ?thesis
    by (auto dest: barrier_Returned)
qed

lemma example_launch:
  "case launchFeedPool exampleWeb [(''f1'', ''Feed'')] exampleSchedule (NewsAggregator_new ''list'') of
     Inl f \<Rightarrow> False
   | Inr s \<Rightarrow> intermediateIndex s =
       [((''X'', ''http://a.com''), (\<lparr>title = ''X'', url = ''http://a.com/1''\<rparr>, [''b'', ''c'']))]"
  by code_simp

lemma feedThunk_mainThread: "feedThunk web i pc s = Inr s' \<Longrightarrow> mainThread s' = mainThread s"
  unfolding feedThunk_def
  by (auto split: feedPc.splits prod.splits if_splits option.splits list.splits sum.splits)

lemma articleThunk_mainThread: "articleThunk web i pc s = Inr s' \<Longrightarrow> mainThread s' = mainThread s"
  unfolding articleThunk_def
  by (auto split: articlePc.splits prod.splits if_splits option.splits)

lemma step_mainThread:
  assumes "t \<noteq> MainThread" and "step web t s = Inr s'"
  shows "mainThread s' = mainThread s"
proof (cases t)
  case MainThread
  with assms show ?thesis by simp
next
  case (DispatcherThread pl)
  with assms show ?thesis by (cases pl) (auto split: sum.splits)
next
  case (WorkerThread pl i)
  with assms show ?thesis
    by (cases pl)
       (auto split: sum.splits if_splits workerPc.splits
             dest: feedThunk_mainThread articleThunk_mainThread)
qed

lemma awaiting_other: "awaiting t s = Some p \<Longrightarrow> t \<noteq> MainThread \<Longrightarrow> p = ArticlePool \<and> (\<exists>i. t = WorkerThread FeedPool i)"
  by (cases "(t, s)" rule: awaiting.cases) (auto split: if_splits)

lemma mainStep_wait:
  assumes "mainStep s = Inr s'"
  shows "(mainThread s = FeedWait \<longrightarrow> mainThread s' = Returned \<and> pendingThunks (feedPool s) = 0) \<and>
         (mainThread s \<noteq> FeedWait \<longrightarrow> mainThread s' \<noteq> Returned) \<and> mainThread s \<noteq> Returned"
  using assms unfolding mainStep_def
  by (auto simp: wait_def split: mainPc.splits list.splits sum.splits if_splits)

lemma waits_main:
  assumes "run web ts s = Inr s'" and "mainThread s' = Returned"
  shows "filter (\<lambda>w. fst w = MainThread) (waits web ts s) =
         (if mainThread s = Returned then [] else [(MainThread, FeedPool)])"
  using assms
proof (induction ts arbitrary: s)
  case Nil
  then show ?case by simp
next
  case (Cons t ts)
  from Cons.prems(1) obtain s1 where s1: "step web t s = Inr s1"
    and rest: "run web ts s1 = Inr s'"
    by (auto split: sum.splits)
  note IH = Cons.IH [OF rest Cons.prems(2)]
  show ?case
  proof (cases "t = MainThread")
    case True
    with s1 have "mainStep s = Inr s1" by simp
    from mainStep_wait [OF this] IH True s1 show ?thesis by (cases "mainThread s = FeedWait") simp_all
  next
    case False
    from step_mainThread [OF False s1] IH s1 False show ?thesis
      by (auto split: option.splits dest: awaiting_other)
  qed
qed

lemma waits_who:
  "w \<in> set (waits web ts s) \<Longrightarrow>
     w = (MainThread, FeedPool) \<or> (\<exists>i. w = (WorkerThread FeedPool i, ArticlePool))"
proof (induction ts arbitrary: s)
  case Nil
  then show ?case by simp
next
  case (Cons t ts)
  show ?case
  proof (cases "step web t s")
    case (Inl f)
    with Cons.prems show ?thesis by simp
  next
    case (Inr s1)
    show ?thesis
    proof (cases "awaiting t s")
      case None
      with Inr Cons.prems have "w \<in> set (waits web ts s1)" by simp
      then show ?thesis by (rule Cons.IH)
    next
      case (Some p)
      with Inr Cons.prems have "w = (t, p) \<or> w \<in> set (waits web ts s1)" by simp
      then show ?thesis
      proof
        assume "w = (t, p)"
        with Some show ?thesis
          by (cases "t = MainThread") (auto dest: awaiting_other split: if_splits)
      next
        assume "w \<in> set (waits web ts s1)"
        then show ?thesis by (rule Cons.IH)
      qed
    qed
  qed
qed

text \<open>
  C2. \<^verbatim>\<open>processAllFeeds\<close> flushes the intermediate index into the index only after
  \<^verbatim>\<open>launchFeedPool\<close> has returned, and from the state it returned. In that state, where the
  flush loop begins, both pools are idle: their queues are empty, their dispatchers carry
  no thunk, no worker has a thunk waiting, running or uncounted, and both counters are
  zero. Whatever steps the threads of the pools take from there, the pools stay idle and
  the intermediate index and the set of seen URLs stay as they are, so no article task is
  submitted later and the flush reads the final intermediate index. As to who waits: the
  calling thread has come back from exactly one \<^verbatim>\<open>wait()\<close>, that on the feed pool; every
  other \<^verbatim>\<open>wait()\<close> of the run is that of a feed thunk on the article pool, inside
  \<^verbatim>\<open>launchArticlePool\<close>.
\<close>

theorem flush_after_all_tasks:
  assumes "rssFeedList web (rssFeedListURI s0) = Some feeds" and "feeds \<noteq> []"
    and "feedPool s0 = ThreadPool_new nf" and "articlePool s0 = ThreadPool_new na"
    and "processAllFeeds web sched s0 = Inr s1"
  shows "\<exists>s. launchFeedPool web feeds sched s0 = Inr s \<and>
             s1 = s\<lparr>index := index s @ map snd (intermediateIndex s)\<rparr> \<and>
             idle (feedPool s) \<and> idle (articlePool s) \<and>
             pendingThunks (feedPool s) = 0 \<and> pendingThunks (articlePool s) = 0 \<and>
             (\<forall>later s'. run web later s = Inr s' \<longrightarrow>
                idle (feedPool s') \<and> idle (articlePool s') \<and>
                intermediateIndex s' = intermediateIndex s \<and> seenURLs s' = seenURLs s) \<and>
             filter (\<lambda>w. fst w = MainThread) (waits web sched (s0\<lparr>mainThread := FeedLoop feeds\<rparr>)) =
               [(MainThread, FeedPool)] \<and>
             (\<forall>w \<in> set (waits web sched (s0\<lparr>mainThread := FeedLoop feeds\<rparr>)).
                w = (MainThread, FeedPool) \<or> (\<exists>i. w = (WorkerThread FeedPool i, ArticlePool)))"
proof -
  from assms(1,2,5) obtain s where l: "launchFeedPool web feeds sched s0 = Inr s"
    and s1: "s1 = s\<lparr>index := index s @ map snd (intermediateIndex s)\<rparr>"
    by (auto simp: processAllFeeds_def split: sum.splits)
  from l have run: "run web sched (s0\<lparr>mainThread := FeedLoop feeds\<rparr>) = Inr s"
    and ret: "mainThread s = Returned"
    by (auto simp: launchFeedPool_def split: sum.splits if_splits)
  from waits_main [OF run ret]
  have m: "filter (\<lambda>w. fst w = MainThread) (waits web sched (s0\<lparr>mainThread := FeedLoop feeds\<rparr>)) =
             [(MainThread, FeedPool)]"
    by simp
  have w: "\<forall>w \<in> set (waits web sched (s0\<lparr>mainThread := FeedLoop feeds\<rparr>)).
             w = (MainThread, FeedPool) \<or> (\<exists>i. w = (WorkerThread FeedPool i, ArticlePool))"
    using waits_who by blast
  from launchFeedPool_drained [OF l assms(3,4)] l s1 m w show ?thesis by blast
qed

lemma example_process:
  "case processAllFeeds exampleWeb exampleSchedule (NewsAggregator_new ''list'') of
     Inl f \<Rightarrow> False
   | Inr s1 \<Rightarrow>
       index s1 = [(\<lparr>title = ''X'', url = ''http://a.com/1''\<rparr>, [''b'', ''c''])] \<and>
       intermediateIndex s1 =
         [((''X'', ''http://a.com''), (\<lparr>title = ''X'', url = ''http://a.com/1''\<rparr>, [''b'', ''c'']))]"
  by code_simp

lemma example_waits:
  "waits exampleWeb exampleSchedule
     ((NewsAggregator_new ''list'')\<lparr>mainThread := FeedLoop [(''f1'', ''Feed'')]\<rparr>) =
     [(WorkerThread FeedPool 0, ArticlePool), (MainThread, FeedPool)]"
  by code_simp

theorem flush_after_all_tasks_witness:
  "case processAllFeeds exampleWeb exampleSchedule (NewsAggregator_new ''list'') of
     Inl f \<Rightarrow> False
   | Inr s1 \<Rightarrow>
       index s1 = [(\<lparr>title = ''X'', url = ''http://a.com/1''\<rparr>, [''b'', ''c''])] \<and>
       intermediateIndex s1 =
         [((''X'', ''http://a.com''), (\<lparr>title = ''X'', url = ''http://a.com/1''\<rparr>, [''b'', ''c'']))] \<and>
       (\<exists>s. launchFeedPool exampleWeb [(''f1'', ''Feed'')] exampleSchedule
               (NewsAggregator_new ''list'') = Inr s \<and>
            s1 = s\<lparr>index := index s @ map snd (intermediateIndex s)\<rparr> \<and>
            idle (feedPool s) \<and> idle (articlePool s) \<and>
            pendingThunks (feedPool s) = 0 \<and> pendingThunks (articlePool s) = 0) \<and>
       waits exampleWeb exampleSchedule
         ((NewsAggregator_new ''list'')\<lparr>mainThread := FeedLoop [(''f1'', ''Feed'')]\<rparr>) =
         [(WorkerThread FeedPool 0, ArticlePool), (MainThread, FeedPool)]"
proof -
  from example_process obtain s1
    where r: "processAllFeeds exampleWeb exampleSchedule (NewsAggregator_new ''list'') = Inr s1"
      and i: "index s1 = [(\<lparr>title = ''X'', url = ''http://a.com/1''\<rparr>, [''b'', ''c''])]"
        "intermediateIndex s1 =
         [((''X'', ''http://a.com''), (\<lparr>title = ''X'', url = ''http://a.com/1''\<rparr>, [''b'', ''c'']))]"
    by (cases "processAllFeeds exampleWeb exampleSchedule (NewsAggregator_new ''list'')") auto
  have f: "rssFeedList exampleWeb (rssFeedListURI (NewsAggregator_new ''list'')) =
             Some [(''f1'', ''Feed'')]"
    "[(''f1'', ''Feed'')] \<noteq> ([] :: (string \<times> string) list)"
    "feedPool (NewsAggregator_new ''list'') = ThreadPool_new kNumFeedWorkers"
    "articlePool (NewsAggregator_new ''list'') = ThreadPool_new kNumArticleWorkers"
    by (simp_all add: NewsAggregator_new_def exampleWeb_def)
  from flush_after_all_tasks [OF f r] r i example_waits show ?thesis by auto
qed

section \<open>No URL is fetched twice\<close>

lemma claimStep_same:
  assumes "seenURLs s' = seenURLs s"
    and "\<And>v. tally (feedClaimed v \<circ> workerThread) (feedPool s') =
              tally (feedClaimed v \<circ> workerThread) (feedPool s)"
    and "\<And>v. tally (articleClaimed v \<circ> workerThread) (articlePool s') =
              tally (articleClaimed v \<circ> workerThread) (articlePool s)"
  shows "claimStep None s s'"
  using assms by (simp add: claimStep_def claimed_def)

lemma claimStep_main:
  assumes "mainStep s = Inr s'"
  shows "claimStep None s s'"
proof (rule claimStep_same)
  show "seenURLs s' = seenURLs s"
    using assms by (auto simp: mainStep_def split: mainPc.splits list.splits sum.splits)
  show "tally (articleClaimed v \<circ> workerThread) (articlePool s') =
        tally (articleClaimed v \<circ> workerThread) (articlePool s)" for v
    using assms by (auto simp: mainStep_def split: mainPc.splits list.splits sum.splits)
  show "tally (feedClaimed v \<circ> workerThread) (feedPool s') =
        tally (feedClaimed v \<circ> workerThread) (feedPool s)" for v
    using assms
    by (auto simp: mainStep_def schedule_effect wait_def
             split: mainPc.splits list.splits sum.splits if_splits
             dest: schedule_count_effect)
qed

lemma claimStep_feedThunk:
  assumes i: "i < length (workerVector (feedPool s))"
    and r: "workerThread (workerVector (feedPool s) ! i) = Running pc"
    and st: "feedThunk web i pc s = Inr s'"
  shows "claimStep (feedFetching (Running pc)) s s'"
proof -
  let ?F = "feedPool s"
  have eff: "int (tally (feedClaimed v \<circ> workerThread) (thunkAt i pc' ?F)) =
      int (tally (feedClaimed v \<circ> workerThread) ?F) + int (feedClaimed v pc')
        - int (feedClaimed v (Running pc))" if "busy pc' = 1" for pc' v
    using thunkAt_effect(4) [OF i r that] .
  have pos: "0 < tally (feedClaimed v \<circ> workerThread) ?F" if "feedClaimed v (Running pc) = 1" for v
    using tally_zero_nth [OF _ i, of "feedClaimed v \<circ> workerThread"] r that by auto
  show ?thesis
  proof (cases pc)
    case (FeedClaim f)
    show ?thesis
    proof (cases "fst f \<in> seenURLs s")
      case True
      with st FeedClaim have s': "s' = s\<lparr>feedPool := thunkAt i CountDown ?F\<rparr>"
        by (simp add: feedThunk_def claimURL_def)
      have "tally (feedClaimed v \<circ> workerThread) (thunkAt i CountDown ?F) =
            tally (feedClaimed v \<circ> workerThread) ?F" for v
        using eff [of CountDown v] FeedClaim by (simp add: feedClaimed_def)
      then show ?thesis using FeedClaim s' by (simp add: claimStep_def claimed_def)
    next
      case False
      with st FeedClaim
      have s': "s' = s\<lparr>seenURLs := insert (fst f) (seenURLs s),
                      feedPool := thunkAt i (Running (FeedParse f)) ?F\<rparr>"
        by (simp add: feedThunk_def claimURL_def)
      have "tally (feedClaimed v \<circ> workerThread) (thunkAt i (Running (FeedParse f)) ?F) =
            tally (feedClaimed v \<circ> workerThread) ?F + (if v = fst f then 1 else 0)" for v
        using eff [of "Running (FeedParse f)" v] FeedClaim
        by (cases "v = fst f") (auto simp: feedClaimed_def)
      then show ?thesis using FeedClaim s' False
        by (auto simp: claimStep_def claimed_def)
    qed
  next
    case (FeedParse f)
    from st FeedParse have "\<exists>pc'. busy pc' = 1 \<and> feedFetching pc' = None \<and>
        s' = s\<lparr>feedPool := thunkAt i pc' ?F\<rparr>"
      by (auto simp: feedThunk_def split: option.splits if_splits
               intro: exI [of _ CountDown] exI [of _ "Running (ArticleLoop _)"])
    then obtain pc' where pc': "busy pc' = 1" "feedFetching pc' = None"
      and s': "s' = s\<lparr>feedPool := thunkAt i pc' ?F\<rparr>" by blast
    have "int (tally (feedClaimed v \<circ> workerThread) (thunkAt i pc' ?F)) =
          int (tally (feedClaimed v \<circ> workerThread) ?F) - (if v = fst f then 1 else 0)" for v
      using eff [OF pc'(1), of v] FeedParse pc'(2)
      by (cases "v = fst f") (auto simp: feedClaimed_def)
    moreover have "0 < tally (feedClaimed (fst f) \<circ> workerThread) ?F"
      using pos [of "fst f"] FeedParse by (simp add: feedClaimed_def)
    ultimately show ?thesis using FeedParse s'
      by (simp add: claimStep_def claimed_def)
  next
    case (ArticleLoop articles)
    have k: "tally (feedClaimed v \<circ> workerThread) (thunkAt i (Running pc') ?F) =
          tally (feedClaimed v \<circ> workerThread) ?F" if "feedFetching (Running pc') = None" for v pc'
      using eff [of "Running pc'" v] ArticleLoop that by (simp add: feedClaimed_def)
    from st ArticleLoop show ?thesis
      by (cases articles)
         (auto simp: feedThunk_def k schedule_effect intro!: claimStep_same)
  next
    case (ArticleCount rest)
    have k: "tally (feedClaimed v \<circ> workerThread) (thunkAt i (Running pc') ?F) =
          tally (feedClaimed v \<circ> workerThread) ?F" if "feedFetching (Running pc') = None" for v pc'
      using eff [of "Running pc'" v] ArticleCount that by (simp add: feedClaimed_def)
    from st ArticleCount show ?thesis
      by (auto simp: feedThunk_def k split: sum.splits
               dest: schedule_count_effect intro!: claimStep_same)
  next
    case (ArticleSignal rest)
    have k: "tally (feedClaimed v \<circ> workerThread) (thunkAt i (Running pc') ?F) =
          tally (feedClaimed v \<circ> workerThread) ?F" if "feedFetching (Running pc') = None" for v pc'
      using eff [of "Running pc'" v] ArticleSignal that by (simp add: feedClaimed_def)
    from st ArticleSignal show ?thesis
      by (auto simp: feedThunk_def k schedule_effect intro!: claimStep_same)
  next
    case ArticleWait
    have k: "tally (feedClaimed v \<circ> workerThread) (thunkAt i CountDown ?F) =
          tally (feedClaimed v \<circ> workerThread) ?F" for v
      using eff [of CountDown v] ArticleWait by (simp add: feedClaimed_def)
    from st ArticleWait show ?thesis
      by (auto simp: feedThunk_def k wait_def split: if_splits intro!: claimStep_same)
  qed
qed

lemma claimStep_articleThunk:
  assumes i: "i < length (workerVector (articlePool s))"
    and r: "workerThread (workerVector (articlePool s) ! i) = Running pc"
    and st: "articleThunk web i pc s = Inr s'"
  shows "claimStep (articleFetching (Running pc)) s s'"
proof -
  let ?A = "articlePool s"
  have eff: "int (tally (articleClaimed v \<circ> workerThread) (thunkAt i pc' ?A)) =
      int (tally (articleClaimed v \<circ> workerThread) ?A) + int (articleClaimed v pc')
        - int (articleClaimed v (Running pc))" if "busy pc' = 1" for pc' v
    using thunkAt_effect(4) [OF i r that] .
  have pos: "0 < tally (articleClaimed v \<circ> workerThread) ?A"
    if "articleClaimed v (Running pc) = 1" for v
    using tally_zero_nth [OF _ i, of "articleClaimed v \<circ> workerThread"] r that by auto
  show ?thesis
  proof (cases pc)
    case (ArticleClaim a)
    show ?thesis
    proof (cases "url a \<in> seenURLs s")
      case True
      with st ArticleClaim have s': "s' = s\<lparr>articlePool := thunkAt i CountDown ?A\<rparr>"
        by (simp add: articleThunk_def claimURL_def)
      have "tally (articleClaimed v \<circ> workerThread) (thunkAt i CountDown ?A) =
            tally (articleClaimed v \<circ> workerThread) ?A" for v
        using eff [of CountDown v] ArticleClaim by (simp add: articleClaimed_def)
      then show ?thesis using ArticleClaim s' by (simp add: claimStep_def claimed_def)
    next
      case False
      with st ArticleClaim
      have s': "s' = s\<lparr>seenURLs := insert (url a) (seenURLs s),
                      articlePool := thunkAt i (Running (ArticleParse a)) ?A\<rparr>"
        by (simp add: articleThunk_def claimURL_def)
      have "tally (articleClaimed v \<circ> workerThread) (thunkAt i (Running (ArticleParse a)) ?A) =
            tally (articleClaimed v \<circ> workerThread) ?A + (if v = url a then 1 else 0)" for v
        using eff [of "Running (ArticleParse a)" v] ArticleClaim
        by (cases "v = url a") (auto simp: articleClaimed_def)
      then show ?thesis using ArticleClaim s' False
        by (auto simp: claimStep_def claimed_def)
    qed
  next
    case (ArticleParse a)
    from st ArticleParse have "\<exists>pc'. busy pc' = 1 \<and> articleFetching pc' = None \<and>
        s' = s\<lparr>articlePool := thunkAt i pc' ?A\<rparr>"
      by (auto simp: articleThunk_def split: option.splits
               intro: exI [of _ CountDown] exI [of _ "Running (ArticleMerge _ _)"])
    then obtain pc' where pc': "busy pc' = 1" "articleFetching pc' = None"
      and s': "s' = s\<lparr>articlePool := thunkAt i pc' ?A\<rparr>" by blast
    have "int (tally (articleClaimed v \<circ> workerThread) (thunkAt i pc' ?A)) =
          int (tally (articleClaimed v \<circ> workerThread) ?A) - (if v = url a then 1 else 0)" for v
      using eff [OF pc'(1), of v] ArticleParse pc'(2)
      by (cases "v = url a") (auto simp: articleClaimed_def)
    moreover have "0 < tally (articleClaimed (url a) \<circ> workerThread) ?A"
      using pos [of "url a"] ArticleParse by (simp add: articleClaimed_def)
    ultimately show ?thesis using ArticleParse s'
      by (simp add: claimStep_def claimed_def)
  next
    case (ArticleMerge a toks)
    have k: "tally (articleClaimed v \<circ> workerThread) (thunkAt i CountDown ?A) =
          tally (articleClaimed v \<circ> workerThread) ?A" for v
      using eff [of CountDown v] ArticleMerge by (simp add: articleClaimed_def)
    from st ArticleMerge show ?thesis
      by (auto simp: articleThunk_def k intro!: claimStep_same)
  qed
qed

lemma claimStep_step:
  assumes st: "step web t s = Inr s'"
  shows "claimStep (fetching t s) s s'"
proof (cases t)
  case MainThread
  with st show ?thesis by (simp add: claimStep_main)
next
  case (DispatcherThread pl)
  show ?thesis
  proof (cases pl)
    case FeedPool
    with st DispatcherThread obtain p where d: "dispatcher (feedPool s) = Inr p"
      and s': "s' = s\<lparr>feedPool := p\<rparr>"
      by (auto split: sum.splits)
    have "tally (feedClaimed v \<circ> workerThread) p =
          tally (feedClaimed v \<circ> workerThread) (feedPool s)" for v
      using dispatcher_tally [OF d, of "feedClaimed v"] by (simp add: feedClaimed_def)
    with s' DispatcherThread FeedPool show ?thesis by (auto intro!: claimStep_same)
  next
    case ArticlePool
    with st DispatcherThread obtain p where d: "dispatcher (articlePool s) = Inr p"
      and s': "s' = s\<lparr>articlePool := p\<rparr>"
      by (auto split: sum.splits)
    have "tally (articleClaimed v \<circ> workerThread) p =
          tally (articleClaimed v \<circ> workerThread) (articlePool s)" for v
      using dispatcher_tally [OF d, of "articleClaimed v"] by (simp add: articleClaimed_def)
    with s' DispatcherThread ArticlePool show ?thesis by (auto intro!: claimStep_same)
  qed
next
  case (WorkerThread pl i)
  show ?thesis
  proof (cases pl)
    case FeedPool
    with st WorkerThread have i: "i < length (workerVector (feedPool s))"
      by (auto split: if_splits)
    show ?thesis
    proof (cases "\<exists>pc. workerThread (workerVector (feedPool s) ! i) = Running pc")
      case True
      then obtain pc where r: "workerThread (workerVector (feedPool s) ! i) = Running pc" ..
      with st WorkerThread FeedPool i have "feedThunk web i pc s = Inr s'" by simp
      from claimStep_feedThunk [OF i r this] WorkerThread FeedPool i r show ?thesis by simp
    next
      case False
      with st WorkerThread FeedPool i obtain p where w: "worker FeedClaim i (feedPool s) = Inr p"
        and s': "s' = s\<lparr>feedPool := p\<rparr>"
        by (auto split: sum.splits workerPc.splits)
      have "tally (feedClaimed v \<circ> workerThread) p =
            tally (feedClaimed v \<circ> workerThread) (feedPool s)" for v
        using w by (rule worker_tally) (simp_all add: feedClaimed_def)
      moreover have "feedFetching (workerThread (workerVector (feedPool s) ! i)) = None"
        using False by (cases "workerThread (workerVector (feedPool s) ! i)") simp_all
      ultimately show ?thesis using s' WorkerThread FeedPool i
        by (auto intro!: claimStep_same)
    qed
  next
    case ArticlePool
    with st WorkerThread have i: "i < length (workerVector (articlePool s))"
      by (auto split: if_splits)
    show ?thesis
    proof (cases "\<exists>pc. workerThread (workerVector (articlePool s) ! i) = Running pc")
      case True
      then obtain pc where r: "workerThread (workerVector (articlePool s) ! i) = Running pc" ..
      with st WorkerThread ArticlePool i have "articleThunk web i pc s = Inr s'" by simp
      from claimStep_articleThunk [OF i r this] WorkerThread ArticlePool i r show ?thesis by simp
    next
      case False
      with st WorkerThread ArticlePool i
      obtain p where w: "worker ArticleClaim i (articlePool s) = Inr p"
        and s': "s' = s\<lparr>articlePool := p\<rparr>"
        by (auto split: sum.splits workerPc.splits)
      have "tally (articleClaimed v \<circ> workerThread) p =
            tally (articleClaimed v \<circ> workerThread) (articlePool s)" for v
        using w by (rule worker_tally) (simp_all add: articleClaimed_def)
      moreover have "articleFetching (workerThread (workerVector (articlePool s) ! i)) = None"
        using False by (cases "workerThread (workerVector (articlePool s) ! i)") simp_all
      ultimately show ?thesis using s' WorkerThread ArticlePool i
        by (auto intro!: claimStep_same)
    qed
  qed
qed

lemma fetches_distinct:
  "claimsOK s \<Longrightarrow>
   distinct (fetches web ts s) \<and>
   (\<forall>u \<in> set (fetches web ts s). 0 < claimed u s \<or> u \<notin> seenURLs s)"
proof (induction ts arbitrary: s)
  case Nil
  show ?case by simp
next
  case (Cons t ts)
  show ?case
  proof (cases "step web t s")
    case (Inl f)
    then show ?thesis by simp
  next
    case (Inr s')
    note cs = claimStep_step [OF Inr]
    show ?thesis
    proof (cases "fetching t s")
      case (Some u)
      with cs have seen: "seenURLs s' = seenURLs s" and pos: "0 < claimed u s"
        and cl: "\<And>v. int (claimed v s') = int (claimed v s) - (if v = u then 1 else 0)"
        by (simp_all add: claimStep_def)
      from Cons.prems pos have u1: "claimed u s = 1" "u \<in> seenURLs s"
        by (auto simp: claimsOK_def dest: spec [of _ u] split: if_splits)
      have ok': "claimsOK s'"
        unfolding claimsOK_def
      proof
        fix v
        from Cons.prems have "claimed v s \<le> (if v \<in> seenURLs s then 1 else 0)"
          by (simp add: claimsOK_def)
        with cl [of v] seen show "claimed v s' \<le> (if v \<in> seenURLs s' then 1 else 0)"
          by (auto split: if_splits)
      qed
      from Cons.IH [OF ok'] have d: "distinct (fetches web ts s')"
        and r: "\<And>x. x \<in> set (fetches web ts s') \<Longrightarrow> 0 < claimed x s' \<or> x \<notin> seenURLs s'"
        by auto
      have "claimed u s' = 0" using cl [of u] u1 by simp
      with r [of u] seen u1 have nu: "u \<notin> set (fetches web ts s')" by auto
      have "0 < claimed x s \<or> x \<notin> seenURLs s" if "x \<in> set (fetches web ts s')" for x
        using r [OF that] cl [of x] seen by (auto split: if_splits)
      with d nu pos Inr Some show ?thesis by auto
    next
      case None
      with cs consider
        (same) "seenURLs s' = seenURLs s" "\<And>v. claimed v s' = claimed v s"
        | (new) u where "u \<notin> seenURLs s" "seenURLs s' = insert u (seenURLs s)"
            "\<And>v. claimed v s' = claimed v s + (if v = u then 1 else 0)"
        by (auto simp: claimStep_def)
      then show ?thesis
      proof cases
        case same
        with Cons.prems have "claimsOK s'" by (simp add: claimsOK_def)
        from Cons.IH [OF this] same Inr None show ?thesis by simp
      next
        case new
        have ok': "claimsOK s'"
          unfolding claimsOK_def
        proof
          fix v
          from Cons.prems have "claimed v s \<le> (if v \<in> seenURLs s then 1 else 0)"
            by (simp add: claimsOK_def)
          with new show "claimed v s' \<le> (if v \<in> seenURLs s' then 1 else 0)"
            by (auto split: if_splits)
        qed
        from Cons.IH [OF ok'] have d: "distinct (fetches web ts s')"
          and r: "\<And>x. x \<in> set (fetches web ts s') \<Longrightarrow> 0 < claimed x s' \<or> x \<notin> seenURLs s'"
          by auto
        have "0 < claimed x s \<or> x \<notin> seenURLs s" if "x \<in> set (fetches web ts s')" for x
          using r [OF that] new by (cases "x = u") auto
        with d Inr None show ?thesis by simp
      qed
    qed
  qed
qed

lemma claimsOK_launch:
  assumes "feedPool s = ThreadPool_new nf" and "articlePool s = ThreadPool_new na"
  shows "claimsOK (s\<lparr>mainThread := FeedLoop feeds\<rparr>)" and "claimed u (s\<lparr>mainThread := FeedLoop feeds\<rparr>) = 0"
  using assms
  by (simp_all add: claimsOK_def claimed_def tally_new feedClaimed_def articleClaimed_def)

text \<open>
  C4. In a run of \<^verbatim>\<open>launchFeedPool\<close> from pools in which no thunk is under way, whatever
  the feeds and articles are, however often a URL recurs among them and however the
  threads interleave, no URL is fetched twice, and no URL is fetched that was in the set
  of seen URLs before: feed thunks and article thunks test and insert on the one set,
  each in a single critical section.
\<close>

theorem each_url_fetched_at_most_once:
  assumes "feedPool s = ThreadPool_new nf" and "articlePool s = ThreadPool_new na"
  shows "distinct (fetches web sched (s\<lparr>mainThread := FeedLoop feeds\<rparr>)) \<and>
         count_list (fetches web sched (s\<lparr>mainThread := FeedLoop feeds\<rparr>)) u \<le> 1 \<and>
         set (fetches web sched (s\<lparr>mainThread := FeedLoop feeds\<rparr>)) \<inter> seenURLs s = {}"
proof -
  let ?s = "s\<lparr>mainThread := FeedLoop feeds\<rparr>"
  from fetches_distinct [OF claimsOK_launch(1) [OF assms], of web sched feeds]
  have d: "distinct (fetches web sched ?s)"
    and r: "\<forall>x \<in> set (fetches web sched ?s). 0 < claimed x ?s \<or> x \<notin> seenURLs ?s"
    by simp_all
  from r claimsOK_launch(2) [OF assms] have "set (fetches web sched ?s) \<inter> seenURLs s = {}"
    by auto
  moreover from d have "count (mset (fetches web sched ?s)) u \<le> 1"
    by (simp add: distinct_count_atmost_1)
  then have "count_list (fetches web sched ?s) u \<le> 1" by (simp add: count_mset)
  ultimately show ?thesis using d by simp
qed

lemma example_fetches:
  "fetches repeatWeb exampleSchedule
     ((NewsAggregator_new ''list'')\<lparr>mainThread := FeedLoop [(''f1'', ''Feed'')]\<rparr>) =
   [''f1'', ''http://a.com/1'']"
  by code_simp

theorem each_url_fetched_at_most_once_witness:
  "feedPool (NewsAggregator_new ''list'') = ThreadPool_new kNumFeedWorkers \<and>
   articlePool (NewsAggregator_new ''list'') = ThreadPool_new kNumArticleWorkers \<and>
   fetches repeatWeb exampleSchedule
     ((NewsAggregator_new ''list'')\<lparr>mainThread := FeedLoop [(''f1'', ''Feed'')]\<rparr>) =
   [''f1'', ''http://a.com/1''] \<and>
   distinct (fetches repeatWeb exampleSchedule
     ((NewsAggregator_new ''list'')\<lparr>mainThread := FeedLoop [(''f1'', ''Feed'')]\<rparr>))"
proof -
  have f: "feedPool (NewsAggregator_new ''list'') = ThreadPool_new kNumFeedWorkers"
    "articlePool (NewsAggregator_new ''list'') = ThreadPool_new kNumArticleWorkers"
    by (simp_all add: NewsAggregator_new_def)
  from each_url_fetched_at_most_once [OF f, of repeatWeb exampleSchedule "[(''f1'', ''Feed'')]"]
    f example_fetches
  show ?thesis by simp
qed

section \<open>Merging in a run\<close>

lemma feedThunk_index: "feedThunk web i pc s = Inr s' \<Longrightarrow> intermediateIndex s' = intermediateIndex s"
  unfolding feedThunk_def
  by (auto split: feedPc.splits prod.splits if_splits option.splits list.splits sum.splits)

lemma mainStep_index: "mainStep s = Inr s' \<Longrightarrow> intermediateIndex s' = intermediateIndex s"
  unfolding mainStep_def
  by (auto split: mainPc.splits list.splits sum.splits)

lemma articleThunk_index:
  "articleThunk web i pc s = Inr s' \<Longrightarrow>
   intermediateIndex s' =
     (case articleMerging (Running pc) of
        None \<Rightarrow> intermediateIndex s
      | Some (a, toks) \<Rightarrow> mergeArticle (getURLServer web) a toks (intermediateIndex s))"
  unfolding articleThunk_def
  by (auto split: articlePc.splits prod.splits if_splits option.splits)

lemma step_index:
  assumes "step web t s = Inr s'"
  shows "intermediateIndex s' =
     (case merging t s of
        None \<Rightarrow> intermediateIndex s
      | Some (a, toks) \<Rightarrow> mergeArticle (getURLServer web) a toks (intermediateIndex s))"
proof (cases t)
  case MainThread
  with assms show ?thesis by (simp add: mainStep_index)
next
  case (DispatcherThread pl)
  with assms show ?thesis by (cases pl) (auto split: sum.splits)
next
  case (WorkerThread pl i)
  show ?thesis
  proof (cases pl)
    case FeedPool
    with assms WorkerThread show ?thesis
      by (auto split: sum.splits if_splits workerPc.splits dest: feedThunk_index)
  next
    case ArticlePool
    with assms WorkerThread have i: "i < length (workerVector (articlePool s))"
      by (auto split: if_splits)
    show ?thesis
    proof (cases "\<exists>pc. workerThread (workerVector (articlePool s) ! i) = Running pc")
      case True
      then obtain pc where r: "workerThread (workerVector (articlePool s) ! i) = Running pc" ..
      with assms WorkerThread ArticlePool i have "articleThunk web i pc s = Inr s'" by simp
      from articleThunk_index [OF this] WorkerThread ArticlePool i r show ?thesis by simp
    next
      case False
      with assms WorkerThread ArticlePool i obtain p where "s' = s\<lparr>articlePool := p\<rparr>"
        by (auto split: sum.splits workerPc.splits)
      moreover have "articleMerging (workerThread (workerVector (articlePool s) ! i)) = None"
        using False by (cases "workerThread (workerVector (articlePool s) ! i)") simp_all
      ultimately show ?thesis using WorkerThread ArticlePool i by simp
    qed
  qed
qed

lemma run_index:
  "run web ts s = Inr s' \<Longrightarrow>
   intermediateIndex s' = mergeAll (getURLServer web) (merges web ts s) (intermediateIndex s)"
proof (induction ts arbitrary: s)
  case Nil
  then show ?case by (simp add: mergeAll_def)
next
  case (Cons t ts)
  from Cons.prems obtain s1 where s1: "step web t s = Inr s1" and r: "run web ts s1 = Inr s'"
    by (auto split: sum.splits)
  from Cons.IH [OF r] step_index [OF s1] s1 show ?case
    by (auto simp: mergeAll_def split: option.splits)
qed


text \<open>
  C1. Two runs of \<^verbatim>\<open>launchFeedPool\<close> on an aggregator whose intermediate index is empty, in
  which the same article tasks reach the merge section, in any two orders. Let the
  duplicates be the k of these tasks that fall on \<open>key\<close>, k > 0. When the run under
  \<open>sched'\<close> has returned, so that both pools have drained, the entry stored under \<open>key\<close>
  has the least of the k URLs as its URL and a sorted token list holding exactly the
  tokens common to all k documents (each as often as the document that has it least
  often), and it is the entry that the run under \<open>sched\<close> stores.
\<close>

theorem merge_order_independent:
  assumes "launchFeedPool web feeds sched s0 = Inr s"
    and "launchFeedPool web feeds sched' s0 = Inr s'"
    and "intermediateIndex s0 = []"
    and "us = merges web sched (s0\<lparr>mainThread := FeedLoop feeds\<rparr>)"
    and "mset (merges web sched' (s0\<lparr>mainThread := FeedLoop feeds\<rparr>)) = mset us"
    and "duplicates (getURLServer web) key us \<noteq> []"
  shows "\<exists>toks.
           map_of (intermediateIndex s') key =
             Some (\<lparr>title = fst key,
                    url = Min (set (map (url \<circ> fst) (duplicates (getURLServer web) key us)))\<rparr>,
                   toks) \<and>
           sorted toks \<and>
           set toks = (\<Inter>(a, t) \<in> set (duplicates (getURLServer web) key us). set t) \<and>
           (\<forall>x. count_list toks x =
                  Min (set (map (\<lambda>(a, t). count_list t x) (duplicates (getURLServer web) key us)))) \<and>
           map_of (intermediateIndex s') key = map_of (intermediateIndex s) key"
proof -
  let ?s0 = "s0\<lparr>mainThread := FeedLoop feeds\<rparr>"
  from assms(1) have "run web sched ?s0 = Inr s"
    by (auto simp: launchFeedPool_def split: sum.splits if_splits)
  from run_index [OF this] assms(3,4)
  have s: "intermediateIndex s = mergeAll (getURLServer web) us []" by simp
  from assms(2) have "run web sched' ?s0 = Inr s'"
    by (auto simp: launchFeedPool_def split: sum.splits if_splits)
  from run_index [OF this] assms(3)
  have s': "intermediateIndex s' = mergeAll (getURLServer web) (merges web sched' ?s0) []"
    by simp
  from mergeAll_order_independent [OF assms(5,6)] show ?thesis
    unfolding s s' .
qed

lemma example_merges:
  "merges exampleWeb exampleSchedule
     ((NewsAggregator_new ''list'')\<lparr>mainThread := FeedLoop [(''f1'', ''Feed'')]\<rparr>) =
   [(\<lparr>title = ''X'', url = ''http://a.com/2''\<rparr>, [''c'', ''b'']),
    (\<lparr>title = ''X'', url = ''http://a.com/1''\<rparr>, [''b'', ''a'', ''c''])]"
  "merges exampleWeb exampleSchedule2
     ((NewsAggregator_new ''list'')\<lparr>mainThread := FeedLoop [(''f1'', ''Feed'')]\<rparr>) =
   [(\<lparr>title = ''X'', url = ''http://a.com/1''\<rparr>, [''b'', ''a'', ''c'']),
    (\<lparr>title = ''X'', url = ''http://a.com/2''\<rparr>, [''c'', ''b''])]"
  by code_simp+

lemma example_launch2:
  "case launchFeedPool exampleWeb [(''f1'', ''Feed'')] exampleSchedule2 (NewsAggregator_new ''list'') of
     Inl f \<Rightarrow> False
   | Inr s \<Rightarrow> intermediateIndex s =
       [((''X'', ''http://a.com''), (\<lparr>title = ''X'', url = ''http://a.com/1''\<rparr>, [''b'', ''c'']))]"
  by code_simp

theorem merge_order_independent_witness:
  "(case launchFeedPool exampleWeb [(''f1'', ''Feed'')] exampleSchedule (NewsAggregator_new ''list'') of
      Inl f \<Rightarrow> False
    | Inr s \<Rightarrow>
       (case launchFeedPool exampleWeb [(''f1'', ''Feed'')] exampleSchedule2
               (NewsAggregator_new ''list'') of
          Inl f \<Rightarrow> False
        | Inr s' \<Rightarrow>
            map_of (intermediateIndex s') (''X'', ''http://a.com'') =
              Some (\<lparr>title = ''X'', url = ''http://a.com/1''\<rparr>, [''b'', ''c'']) \<and>
            map_of (intermediateIndex s') (''X'', ''http://a.com'') =
              map_of (intermediateIndex s) (''X'', ''http://a.com''))) \<and>
   merges exampleWeb exampleSchedule2
     ((NewsAggregator_new ''list'')\<lparr>mainThread := FeedLoop [(''f1'', ''Feed'')]\<rparr>) =
   rev (merges exampleWeb exampleSchedule
     ((NewsAggregator_new ''list'')\<lparr>mainThread := FeedLoop [(''f1'', ''Feed'')]\<rparr>))"
proof -
  let ?s0 = "NewsAggregator_new ''list''"
  let ?us = "merges exampleWeb exampleSchedule (?s0\<lparr>mainThread := FeedLoop [(''f1'', ''Feed'')]\<rparr>)"
  from example_launch obtain s
    where r: "launchFeedPool exampleWeb [(''f1'', ''Feed'')] exampleSchedule ?s0 = Inr s"
    by (cases "launchFeedPool exampleWeb [(''f1'', ''Feed'')] exampleSchedule ?s0") auto
  from example_launch2 obtain s'
    where r': "launchFeedPool exampleWeb [(''f1'', ''Feed'')] exampleSchedule2 ?s0 = Inr s'"
      and i': "intermediateIndex s' =
       [((''X'', ''http://a.com''), (\<lparr>title = ''X'', url = ''http://a.com/1''\<rparr>, [''b'', ''c'']))]"
    by (cases "launchFeedPool exampleWeb [(''f1'', ''Feed'')] exampleSchedule2 ?s0") auto
  have e: "intermediateIndex ?s0 = []" by (simp add: NewsAggregator_new_def)
  have p: "mset (merges exampleWeb exampleSchedule2
             (?s0\<lparr>mainThread := FeedLoop [(''f1'', ''Feed'')]\<rparr>)) = mset ?us"
    by (simp add: example_merges)
  have g: "getURLServer exampleWeb = take 12" by (simp add: exampleWeb_def)
  have d: "duplicates (getURLServer exampleWeb) (''X'', ''http://a.com'') ?us \<noteq> []"
    by (simp add: example_merges g duplicates_def articleIden_def)
  from merge_order_independent [OF r r' e refl p d]
  have "map_of (intermediateIndex s') (''X'', ''http://a.com'') =
        map_of (intermediateIndex s) (''X'', ''http://a.com'')" by blast
  with r r' i' show ?thesis by (simp add: example_merges)
qed

lemma mergeAll_entryOK:
  "list_all (entryOK srv) idx \<Longrightarrow> list_all (entryOK srv) (mergeAll srv us idx)"
  unfolding mergeAll_def
  by (induction us arbitrary: idx) (auto simp: mergeArticle_entryOK)

text \<open>
  C9. Every entry of the intermediate index has the title of its key, a URL on the server
  of its key and sorted tokens. An article task keeps it so, whether it inserts or merges,
  and so the index has the property after any number of steps of a run, from the empty
  index on.
\<close>

theorem mergeArticle_keeps_entries:
  assumes "list_all (entryOK (getURLServer web)) (intermediateIndex s)"
  shows "list_all (entryOK (getURLServer web))
           (mergeArticle (getURLServer web) a toks (intermediateIndex s)) \<and>
         (\<forall>ts s'. run web ts s = Inr s' \<longrightarrow>
            list_all (entryOK (getURLServer web)) (intermediateIndex s'))"
proof -
  have "list_all (entryOK (getURLServer web)) (intermediateIndex s')"
    if "run web ts s = Inr s'" for ts s'
    using run_index [OF that] assms by (simp add: mergeAll_entryOK)
  with assms show ?thesis by (simp add: mergeArticle_entryOK)
qed

theorem mergeArticle_keeps_entries_witness:
  "list_all (entryOK (getURLServer exampleWeb))
     (intermediateIndex ((NewsAggregator_new ''list'')\<lparr>intermediateIndex :=
        [((''X'', ''http://a.com''), (\<lparr>title = ''X'', url = ''http://a.com/2''\<rparr>, [''cat'', ''the'']))]\<rparr>)) \<and>
   list_all (entryOK (getURLServer exampleWeb))
     (mergeArticle (getURLServer exampleWeb) \<lparr>title = ''X'', url = ''http://a.com/1''\<rparr> [''the'', ''dog'']
        [((''X'', ''http://a.com''), (\<lparr>title = ''X'', url = ''http://a.com/2''\<rparr>, [''cat'', ''the'']))])"
proof -
  let ?s = "(NewsAggregator_new ''list'')\<lparr>intermediateIndex :=
        [((''X'', ''http://a.com''), (\<lparr>title = ''X'', url = ''http://a.com/2''\<rparr>, [''cat'', ''the'']))]\<rparr>"
  have h: "list_all (entryOK (getURLServer exampleWeb)) (intermediateIndex ?s)"
    by (simp add: entryOK_def exampleWeb_def)
  from h mergeArticle_keeps_entries [OF h, of "\<lparr>title = ''X'', url = ''http://a.com/1''\<rparr>" "[''the'', ''dog'']"]
  show ?thesis by simp
qed

section \<open>No run goes wrong\<close>

lemma protocol_new: "int n \<le> INT_MAX \<Longrightarrow> protocol (ThreadPool_new n)"
  by (simp add: protocol_def spawnedBelow_new)
     (simp add: ThreadPool_new_def slotOK_def tally_def occupied_def)

lemma tally_free:
  assumes "tally g p < length (workerVector p)"
  shows "\<exists>i < length (workerVector p). g (workerVector p ! i) = 0"
proof (rule ccontr)
  assume "\<not> ?thesis"
  then have "\<forall>w \<in> set (workerVector p). 1 \<le> g w"
    by (auto simp: in_set_conv_nth Suc_le_eq)
  then have "sum_list (map (\<lambda>w. 1) (workerVector p)) \<le> sum_list (map g (workerVector p))"
    by (intro sum_list_mono) simp
  with assms show False by (simp add: tally_def sum_list_triv)
qed

lemma all_nth_update:
  "k < length ws \<Longrightarrow>
   (\<forall>i < length ws. P i (ws[k := w] ! i)) \<longleftrightarrow>
   P k w \<and> (\<forall>i < length ws. i \<noteq> k \<longrightarrow> P i (ws ! i))"
  by (auto simp: nth_list_update)

lemma spawn_protocol:
  assumes "spawn p = Inr q"
    and "spawnedBelow p"
    and "\<forall>i < length (workerVector p). slotOK False (workerVector p ! i)"
  shows "spawnedBelow q \<and> length (workerVector q) = length (workerVector p) \<and>
         (\<forall>i < length (workerVector q). slotOK False (workerVector q ! i)) \<and>
         map occupied (workerVector q) = map occupied (workerVector p) \<and>
         nextSpawnID q = nextSpawnID p + 1 \<and>
         exitFlag q = exitFlag p \<and> workerIsAvailable q = workerIsAvailable p \<and>
         dispatcherThread q = dispatcherThread p \<and> thunkQueue q = thunkQueue p \<and>
         newThunkFromScheduler q = newThunkFromScheduler p \<and> pendingThunks q = pendingThunks p"
proof -
  let ?n = "nat (nextSpawnID p)"
  from assms(1) have n: "?n < length (workerVector p)"
    and ns: "workerThread (workerVector p ! ?n) = NotSpawned"
    and q: "q = p\<lparr>workerVector := (workerVector p)[?n :=
                     (workerVector p ! ?n)\<lparr>workerThread := AwaitThunk\<rparr>],
                  nextSpawnID := nextSpawnID p + 1\<rparr>"
    by (auto simp: spawn_def split: if_splits)
  have "slotOK False ((workerVector p ! ?n)\<lparr>workerThread := AwaitThunk\<rparr>)"
    using assms(3) n ns by (auto simp: slotOK_def)
  then have "\<forall>i < length (workerVector q). slotOK False (workerVector q ! i)"
    using assms(3) n unfolding q by (auto simp: nth_list_update)
  moreover have "map occupied (workerVector q) = map occupied (workerVector p)"
    unfolding q using ns by (simp add: map_update_same occupied_def)
  ultimately show ?thesis
    using spawn_spawnedBelow [OF assms(1,2)] q by simp
qed

text \<open>
  The loop of the dispatcher, entered at or below \<^verbatim>\<open>nextSpawnID\<close> with no slot held: if it
  selects, it selects a free slot that has a worker, and marks that slot alone.
\<close>

lemma selectWorker_protocol:
  assumes "selectWorker c p = Inr (a, p')"
    and "spawnedBelow p"
    and "\<forall>i < length (workerVector p). slotOK False (workerVector p ! i)"
    and "int c \<le> nextSpawnID p"
  shows "spawnedBelow p' \<and> length (workerVector p') = length (workerVector p) \<and>
         exitFlag p' = exitFlag p \<and> workerIsAvailable p' = workerIsAvailable p \<and>
         dispatcherThread p' = dispatcherThread p \<and> thunkQueue p' = thunkQueue p \<and>
         newThunkFromScheduler p' = newThunkFromScheduler p \<and>
         pendingThunks p' = pendingThunks p \<and>
         (a = - 1 \<or>
          (0 \<le> a \<and> nat a < length (workerVector p) \<and>
           (\<forall>i < length (workerVector p'). slotOK (i = nat a) (workerVector p' ! i)) \<and>
           tally occupied p' = tally occupied p + 1))"
  using assms
proof (induction c p rule: selectWorker.induct)
  case (1 c p)
  show ?case
  proof (cases "c < length (workerVector p)")
    case False
    with "1.prems" show ?thesis by (simp add: selectWorker.simps [of c p])
  next
    case True
    let ?q = "if int c = nextSpawnID p then spawn p else Inr p"
    from "1.prems"(1) True obtain q where q: "?q = Inr q"
      by (cases ?q) (auto simp: selectWorker.simps [of c p])
    have Q: "spawnedBelow q \<and> length (workerVector q) = length (workerVector p) \<and>
         (\<forall>i < length (workerVector q). slotOK False (workerVector q ! i)) \<and>
         map occupied (workerVector q) = map occupied (workerVector p) \<and>
         exitFlag q = exitFlag p \<and> workerIsAvailable q = workerIsAvailable p \<and>
         dispatcherThread q = dispatcherThread p \<and> thunkQueue q = thunkQueue p \<and>
         newThunkFromScheduler q = newThunkFromScheduler p \<and> pendingThunks q = pendingThunks p"
      and nq: "int c < nextSpawnID q"
      using q "1.prems"(2-4) spawn_protocol [of p q]
      by (auto split: if_splits)
    have tq: "tally occupied q = tally occupied p" using Q by (simp add: tally_def)
    show ?thesis
    proof (cases "workerInUse (workerVector q ! c)")
      case False
      with "1.prems"(1) True q
      have p': "p' = q\<lparr>workerVector := (workerVector q)[c := (workerVector q ! c)\<lparr>workerInUse := True\<rparr>]\<rparr>"
        and a: "a = int c"
        by (simp_all add: selectWorker.simps [of c p])
      have cq: "c < length (workerVector q)" using True Q by simp
      have sp: "workerThread (workerVector q ! c) \<noteq> NotSpawned"
        using Q nq cq by (simp add: spawnedBelow_def)
      have ok: "slotOK False (workerVector q ! c)" using Q cq by simp
      have new: "slotOK True ((workerVector q ! c)\<lparr>workerInUse := True\<rparr>)"
        using ok False sp by (auto simp: slotOK_def)
      have slots: "\<forall>i < length (workerVector p'). slotOK (i = nat a) (workerVector p' ! i)"
        using Q new cq unfolding p' a by (auto simp: nth_list_update)
      have "int (tally occupied p') = int (tally occupied q) + 1"
        unfolding p' using tally_update [OF cq, of occupied] False
        by (simp add: occupied_def)
      then have t: "tally occupied p' = tally occupied p + 1" using tq by simp
      have sb: "spawnedBelow p'"
        using Q unfolding p' by (simp add: spawnedBelow_def)
      from Q slots t sb True show ?thesis unfolding a by (simp add: p')
    next
      case inUse: True
      with "1.prems"(1) True q have rec: "selectWorker (Suc c) q = Inr (a, p')"
        by (simp add: selectWorker.simps [of c p])
      have pre: "spawnedBelow q" "\<forall>i < length (workerVector q). slotOK False (workerVector q ! i)"
        "int (Suc c) \<le> nextSpawnID q"
        using Q nq by auto
      have "\<not> \<not> workerInUse (workerVector q ! c)" using inUse by simp
      note R = "1.IH" [OF True q this rec pre]
      with Q tq show ?thesis by auto
    qed
  qed
qed

lemma selectWorker_finds:
  assumes "spawnedBelow p"
    and "\<forall>i < length (workerVector p). slotOK False (workerVector p ! i)"
    and "int (length (workerVector p)) \<le> INT_MAX"
    and "\<exists>i. c \<le> i \<and> i < length (workerVector p) \<and> \<not> workerInUse (workerVector p ! i)"
  shows "\<exists>a p'. selectWorker c p = Inr (a, p') \<and> 0 \<le> a"
  using assms
proof (induction c p rule: selectWorker.induct)
  case (1 c p)
  from "1.prems"(4) have True: "c < length (workerVector p)" by auto
  let ?q = "if int c = nextSpawnID p then spawn p else Inr p"
  have "\<exists>q. ?q = Inr q"
  proof (cases "int c = nextSpawnID p")
    case eq: True
    with "1.prems" True have "workerThread (workerVector p ! c) = NotSpawned"
      by (simp add: spawnedBelow_def)
    moreover from eq have "nat (nextSpawnID p) = c" by simp
    ultimately show ?thesis using eq True "1.prems"(3)
      unfolding spawn_def INT_MAX_def by auto
  qed simp
  then obtain q where q: "?q = Inr q" ..
  have Q: "spawnedBelow q" "length (workerVector q) = length (workerVector p)"
    "\<forall>i < length (workerVector q). slotOK False (workerVector q ! i)"
    "map occupied (workerVector q) = map occupied (workerVector p)"
    using q "1.prems"(1,2) spawn_protocol [of p q] by (auto split: if_splits)
  have same: "workerInUse (workerVector q ! i) = workerInUse (workerVector p ! i)" for i
    using q by (auto simp: spawn_def nth_list_update split: if_splits)
  show ?case
  proof (cases "workerInUse (workerVector q ! c)")
    case False
    with True q show ?thesis by (simp add: selectWorker.simps [of c p])
  next
    case inUse: True
    from "1.prems"(4) obtain i where i: "c \<le> i" "i < length (workerVector p)"
      "\<not> workerInUse (workerVector p ! i)" by blast
    with inUse same [of c] have "i \<noteq> c" by auto
    with i have "\<exists>i. Suc c \<le> i \<and> i < length (workerVector q) \<and> \<not> workerInUse (workerVector q ! i)"
      using Q(2) same by (intro exI [of _ i]) auto
    from "1.IH" [OF True q _ Q(1) Q(3) _ this] inUse Q(2) "1.prems"(3)
    obtain a p' where "selectWorker (Suc c) q = Inr (a, p')" "0 \<le> a" by auto
    with True q inUse show ?thesis by (simp add: selectWorker.simps [of c p])
  qed
qed

lemma protocol_slot:
  "protocol p \<Longrightarrow> i < length (workerVector p) \<Longrightarrow>
   slotOK (heldBy (dispatcherThread p) = Some i) (workerVector p ! i)"
  by (simp add: protocol_def)

lemma protocolI:
  assumes "protocol p"
    and "exitFlag p' = exitFlag p" and "spawnedBelow p'"
    and "length (workerVector p') = length (workerVector p)"
    and "\<And>i. i < length (workerVector p) \<Longrightarrow>
           slotOK (heldBy (dispatcherThread p') = Some i) (workerVector p' ! i)"
    and "\<And>a. heldBy (dispatcherThread p') = Some a \<Longrightarrow> a < length (workerVector p)"
    and "int (workerIsAvailable p') + int (selecting (dispatcherThread p')) + int (tally occupied p')
           \<le> int (workerIsAvailable p) + int (selecting (dispatcherThread p)) + int (tally occupied p)"
  shows "protocol p'"
  using assms unfolding protocol_def by auto

lemma spawnedBelow_keep:
  assumes "spawnedBelow p" and "nextSpawnID p' = nextSpawnID p"
    and "workerVector p' = (workerVector p)[i := w]"
    and "i < length (workerVector p) \<Longrightarrow>
         (workerThread w = NotSpawned) = (workerThread (workerVector p ! i) = NotSpawned)"
  shows "spawnedBelow p'"
proof (rule spawnedBelow_frame [OF assms(1,2)])
  show "length (workerVector p') = length (workerVector p)" using assms(3) by simp
  show "(workerThread (workerVector p' ! j) = NotSpawned) =
        (workerThread (workerVector p ! j) = NotSpawned)" if "j < length (workerVector p)" for j
    using assms(3,4) that by (cases "j = i") (simp_all add: nth_list_update)
qed

lemma dispatcher_protocol:
  assumes pr: "protocol p" and st: "dispatcher p = Inr p'"
  shows "protocol p'"
proof (cases "dispatcherThread p")
  case AwaitNewThunk
  with st have "p' = p\<lparr>newThunkFromScheduler := newThunkFromScheduler p - 1,
                        dispatcherThread := AwaitWorker\<rparr>"
    by (auto simp: dispatcher_def split: if_splits)
  with pr AwaitNewThunk show ?thesis by (simp add: protocol_def spawnedBelow_def tally_def)
next
  case AwaitWorker
  with st pr have "0 < workerIsAvailable p"
    and "p' = p\<lparr>workerIsAvailable := workerIsAvailable p - 1, dispatcherThread := SelectWorker\<rparr>"
    by (auto simp: dispatcher_def protocol_def split: if_splits)
  with pr AwaitWorker show ?thesis by (simp add: protocol_def spawnedBelow_def tally_def)
next
  case SelectWorker
  from st SelectWorker obtain a q where sel: "selectWorker 0 p = Inr (a, q)"
    and a0: "0 \<le> a" and p': "p' = q\<lparr>dispatcherThread := PopThunk (nat a)\<rparr>"
    by (auto simp: dispatcher_def split: sum.splits prod.splits if_splits)
  from pr SelectWorker have pre: "spawnedBelow p"
    "\<forall>i < length (workerVector p). slotOK False (workerVector p ! i)" "int 0 \<le> nextSpawnID p"
    by (simp_all add: protocol_def spawnedBelow_def)
  from selectWorker_protocol [OF sel pre] a0
  have R: "spawnedBelow q" "length (workerVector q) = length (workerVector p)"
    "exitFlag q = exitFlag p" "workerIsAvailable q = workerIsAvailable p"
    "nat a < length (workerVector p)"
    "\<forall>i < length (workerVector q). slotOK (i = nat a) (workerVector q ! i)"
    "tally occupied q = tally occupied p + 1"
    by auto
  show ?thesis
  proof (rule protocolI [OF pr])
    show "spawnedBelow p'" using R(1) p' by (simp add: spawnedBelow_def)
    show "slotOK (heldBy (dispatcherThread p') = Some i) (workerVector p' ! i)"
      if "i < length (workerVector p)" for i
      using R(2,6) that unfolding p' by (auto simp: eq_commute)
    show "int (workerIsAvailable p') + int (selecting (dispatcherThread p')) + int (tally occupied p')
           \<le> int (workerIsAvailable p) + int (selecting (dispatcherThread p)) + int (tally occupied p)"
      using R(4,7) SelectWorker unfolding p' by (simp add: tally_def)
  qed (use R p' in auto)
next
  case (PopThunk a)
  with st obtain t rest where "p' = p\<lparr>thunkQueue := rest, dispatcherThread := AssignThunk a t\<rparr>"
    by (auto simp: dispatcher_def split: list.splits)
  with pr PopThunk show ?thesis by (simp add: protocol_def spawnedBelow_def tally_def)
next
  case (AssignThunk a t)
  let ?w = "workerVector p ! a"
  from st AssignThunk have a: "a < length (workerVector p)"
    and p': "p' = p\<lparr>workerVector := (workerVector p)[a :=
                   ?w\<lparr>workerThunk := Some t, thunkToExecute := thunkToExecute ?w + 1\<rparr>],
                 dispatcherThread := AwaitNewThunk\<rparr>"
    by (auto simp: dispatcher_def split: if_splits)
  from protocol_slot [OF pr a] AssignThunk have ok: "slotOK True ?w" by simp
  have new: "slotOK False (?w\<lparr>workerThunk := Some t, thunkToExecute := thunkToExecute ?w + 1\<rparr>)"
    using ok by (auto simp: slotOK_def)
  show ?thesis
  proof (rule protocolI [OF pr])
    show "spawnedBelow p'"
    proof (rule spawnedBelow_keep [where i = a])
      show "spawnedBelow p" using pr by (simp add: protocol_def)
      show "workerVector p' = (workerVector p)[a :=
          ?w\<lparr>workerThunk := Some t, thunkToExecute := thunkToExecute ?w + 1\<rparr>]"
        by (simp add: p')
    qed (simp_all add: p')
    show "slotOK (heldBy (dispatcherThread p') = Some i) (workerVector p' ! i)"
      if "i < length (workerVector p)" for i
    proof (cases "i = a")
      case True
      with new a show ?thesis by (simp add: p')
    next
      case False
      with protocol_slot [OF pr that] AssignThunk a show ?thesis by (simp add: p')
    qed
    have "int (tally occupied p') = int (tally occupied p)"
      unfolding p' using tally_update [OF a, of occupied] by (simp add: occupied_def tally_def)
    then show "int (workerIsAvailable p') + int (selecting (dispatcherThread p')) + int (tally occupied p')
           \<le> int (workerIsAvailable p) + int (selecting (dispatcherThread p)) + int (tally occupied p)"
      by (simp add: p')
  qed (simp_all add: p')
next
  case DispatcherExited
  with st show ?thesis by (simp add: dispatcher_def)
qed

text \<open>
  The dispatcher of a pool that keeps the protocol finds a free worker whenever it has
  passed \<^verbatim>\<open>workerIsAvailable\<close>; the one way it can go wrong is an empty queue at line 59.
\<close>

lemma dispatcher_fault:
  assumes pr: "protocol p" and st: "dispatcher p = Inl f"
  shows "f = Blocked \<or> (\<exists>a. dispatcherThread p = PopThunk a \<and> thunkQueue p = [])"
proof (cases "dispatcherThread p")
  case SelectWorker
  from pr SelectWorker have pre: "spawnedBelow p"
    "\<forall>i < length (workerVector p). slotOK False (workerVector p ! i)"
    "int (length (workerVector p)) \<le> INT_MAX"
    and "tally occupied p < length (workerVector p)"
    by (simp_all add: protocol_def)
  from tally_free [OF this(4)] obtain i where "i < length (workerVector p)"
    "\<not> workerInUse (workerVector p ! i)"
    by (auto simp: occupied_def split: if_splits)
  then have "\<exists>i. 0 \<le> i \<and> i < length (workerVector p) \<and> \<not> workerInUse (workerVector p ! i)"
    by auto
  from selectWorker_finds [OF pre this] st SelectWorker show ?thesis
    by (auto simp: dispatcher_def)
next
  case (AssignThunk a t)
  with pr have "a < length (workerVector p)" by (simp add: protocol_def)
  with st AssignThunk show ?thesis by (simp add: dispatcher_def)
qed (use st in \<open>auto simp: dispatcher_def split: if_splits list.splits\<close>)

text \<open>A step of worker \<open>i\<close> that rewrites its own slot and may add a signal to the semaphore.\<close>

lemma protocol_slot_update:
  assumes pr: "protocol p" and i: "i < length (workerVector p)"
    and p': "workerVector p' = (workerVector p)[i := w]"
      "dispatcherThread p' = dispatcherThread p" "exitFlag p' = exitFlag p"
      "nextSpawnID p' = nextSpawnID p"
    and ns: "workerThread w \<noteq> NotSpawned" "workerThread (workerVector p ! i) \<noteq> NotSpawned"
    and ok: "slotOK (heldBy (dispatcherThread p) = Some i) w"
    and cnt: "int (workerIsAvailable p') + int (occupied w) \<le>
              int (workerIsAvailable p) + int (occupied (workerVector p ! i))"
  shows "protocol p'"
proof (rule protocolI [OF pr])
  show "spawnedBelow p'"
  proof (rule spawnedBelow_keep [where i = i])
    show "spawnedBelow p" using pr by (simp add: protocol_def)
  qed (use p' ns in simp_all)
  show "slotOK (heldBy (dispatcherThread p') = Some j) (workerVector p' ! j)"
    if "j < length (workerVector p)" for j
  proof (cases "j = i")
    case True
    with ok i p' show ?thesis by simp
  next
    case False
    with protocol_slot [OF pr that] p' show ?thesis by simp
  qed
  have "int (tally occupied p') = int (tally occupied p) + int (occupied w)
          - int (occupied (workerVector p ! i))"
    using sum_list_map_update [OF i, of occupied w] p'(1) by (simp add: tally_def)
  with cnt p'(2)
  show "int (workerIsAvailable p') + int (selecting (dispatcherThread p')) + int (tally occupied p')
           \<le> int (workerIsAvailable p) + int (selecting (dispatcherThread p)) + int (tally occupied p)"
    by simp
  show "heldBy (dispatcherThread p') = Some a \<Longrightarrow> a < length (workerVector p)" for a
    using pr p'(2) by (simp add: protocol_def)
qed (use p' in simp_all)

lemma worker_protocol:
  assumes pr: "protocol p" and st: "worker invoke i p = Inr p'"
  shows "protocol p'"
proof -
  from st have i: "i < length (workerVector p)"
    by (auto simp: worker_def split: if_splits)
  let ?w = "workerVector p ! i"
  let ?h = "heldBy (dispatcherThread p) = Some i"
  note ok = protocol_slot [OF pr i]
  from pr have ne: "\<not> exitFlag p" by (simp add: protocol_def)
  show ?thesis
  proof (cases "workerThread ?w")
    case AwaitThunk
    with st i ne obtain t where t: "workerThunk ?w = Some t" "0 < thunkToExecute ?w"
      and p': "p' = p\<lparr>workerVector := (workerVector p)[i :=
                 ?w\<lparr>thunkToExecute := thunkToExecute ?w - 1,
                    workerThread := Running (invoke t)\<rparr>]\<rparr>"
      by (auto simp: worker_def Let_def split: if_splits option.splits)
    show ?thesis
    proof (rule protocol_slot_update [OF pr i])
      show "slotOK ?h (?w\<lparr>thunkToExecute := thunkToExecute ?w - 1,
                    workerThread := Running (invoke t)\<rparr>)"
        using ok t by (auto simp: slotOK_def)
    qed (use p' AwaitThunk in \<open>simp_all add: occupied_def\<close>)
  next
    case CountDown
    with st i have p': "p' = p\<lparr>pendingThunks := pendingThunks p - 1,
          workerVector := (workerVector p)[i := ?w\<lparr>workerThread := Release\<rparr>]\<rparr>"
      by (auto simp: worker_def Let_def split: if_splits)
    show ?thesis
    proof (rule protocol_slot_update [OF pr i])
      show "slotOK ?h (?w\<lparr>workerThread := Release\<rparr>)"
        using ok CountDown by (auto simp: slotOK_def)
    qed (use p' CountDown in \<open>simp_all add: occupied_def\<close>)
  next
    case Release
    with st i have p': "p' = p\<lparr>workerVector := (workerVector p)[i :=
          ?w\<lparr>workerInUse := False, workerThread := Announce\<rparr>]\<rparr>"
      by (auto simp: worker_def Let_def split: if_splits)
    from ok Release have u: "workerInUse ?w" by (simp add: slotOK_def)
    show ?thesis
    proof (rule protocol_slot_update [OF pr i])
      show "slotOK ?h (?w\<lparr>workerInUse := False, workerThread := Announce\<rparr>)"
        using ok Release by (auto simp: slotOK_def)
    qed (use p' Release u in \<open>simp_all add: occupied_def\<close>)
  next
    case Announce
    with st i have p': "p' = p\<lparr>workerIsAvailable := workerIsAvailable p + 1,
          workerVector := (workerVector p)[i := ?w\<lparr>workerThread := AwaitThunk\<rparr>]\<rparr>"
      by (auto simp: worker_def Let_def split: if_splits)
    show ?thesis
    proof (rule protocol_slot_update [OF pr i])
      show "slotOK ?h (?w\<lparr>workerThread := AwaitThunk\<rparr>)"
        using ok Announce by (auto simp: slotOK_def)
    qed (use p' Announce in \<open>simp_all add: occupied_def\<close>)
  qed (use st i in \<open>auto simp: worker_def Let_def\<close>)
qed

lemma worker_fault:
  assumes pr: "protocol p" and st: "worker invoke i p = Inl f"
  shows "f = Blocked \<or> f = Overflow"
proof (cases "i < length (workerVector p)")
  case True
  let ?w = "workerVector p ! i"
  from protocol_slot [OF pr True]
  have "0 < thunkToExecute ?w \<longrightarrow> workerThunk ?w \<noteq> None" by (simp add: slotOK_def)
  with st True show ?thesis
    by (cases "workerThread ?w")
       (auto simp: worker_def Let_def split: if_splits option.splits)
qed (use st in \<open>simp add: worker_def\<close>)

lemma thunkAt_protocol:
  assumes pr: "protocol p" and i: "i < length (workerVector p)"
    and r: "workerThread (workerVector p ! i) = Running r" and b: "busy pc = 1"
  shows "protocol (thunkAt i pc p)"
proof (rule protocol_slot_update [OF pr i])
  let ?w = "workerVector p ! i"
  from b have w: "working pc" "pc \<noteq> NotSpawned" "pc \<noteq> Announce"
    by (cases pc; simp)+
  show "slotOK (heldBy (dispatcherThread p) = Some i) (?w\<lparr>workerThread := pc\<rparr>)"
    using protocol_slot [OF pr i] r w by (auto simp: slotOK_def)
  show "int (workerIsAvailable (thunkAt i pc p)) + int (occupied (?w\<lparr>workerThread := pc\<rparr>))
        \<le> int (workerIsAvailable p) + int (occupied ?w)"
    using r w by (simp add: thunkAt_def occupied_def)
qed (use r b in \<open>auto simp: thunkAt_def\<close>)

lemma schedule_protocol:
  "protocol p \<Longrightarrow> protocol (schedule_push t p)"
  "protocol p \<Longrightarrow> protocol (schedule_signal p)"
  "protocol p \<Longrightarrow> schedule_count p = Inr p' \<Longrightarrow> protocol p'"
  by (auto simp: protocol_def spawnedBelow_def tally_def schedule_push_def schedule_signal_def
        schedule_count_def split: if_splits)

lemma dispatcher_queue:
  assumes pr: "protocol p" and st: "dispatcher p = Inr p'"
  shows "int (length (thunkQueue p')) - int (newThunkFromScheduler p') - int (due (dispatcherThread p')) =
         int (length (thunkQueue p)) - int (newThunkFromScheduler p) - int (due (dispatcherThread p))"
proof (cases "dispatcherThread p")
  case SelectWorker
  from st SelectWorker obtain a q where sel: "selectWorker 0 p = Inr (a, q)"
    and p': "p' = q\<lparr>dispatcherThread := PopThunk (nat a)\<rparr>"
    by (auto simp: dispatcher_def split: sum.splits prod.splits if_splits)
  from pr SelectWorker have pre: "spawnedBelow p"
    "\<forall>i < length (workerVector p). slotOK False (workerVector p ! i)" "int 0 \<le> nextSpawnID p"
    by (simp_all add: protocol_def spawnedBelow_def)
  from selectWorker_protocol [OF sel pre] SelectWorker show ?thesis by (simp add: p')
next
  case AwaitWorker
  with st pr show ?thesis by (auto simp: dispatcher_def protocol_def split: if_splits)
qed (use st in \<open>auto simp: dispatcher_def split: if_splits list.splits\<close>)

lemma worker_queue:
  assumes "worker invoke i p = Inr p'"
  shows "thunkQueue p' = thunkQueue p \<and> newThunkFromScheduler p' = newThunkFromScheduler p \<and>
         dispatcherThread p' = dispatcherThread p"
  using assms
  by (cases "workerThread (workerVector p ! i)")
     (auto simp: worker_def Let_def split: if_splits option.splits)

lemma schedule_fields:
  "thunkQueue (schedule_push t p) = thunkQueue p @ [t]"
  "newThunkFromScheduler (schedule_push t p) = newThunkFromScheduler p"
  "dispatcherThread (schedule_push t p) = dispatcherThread p"
  "thunkQueue (schedule_signal p) = thunkQueue p"
  "newThunkFromScheduler (schedule_signal p) = newThunkFromScheduler p + 1"
  "dispatcherThread (schedule_signal p) = dispatcherThread p"
  by (simp_all add: schedule_push_def schedule_signal_def)

lemma sound_main:
  assumes s: "sound s" and st: "mainStep s = Inr s'"
  shows "sound s'"
proof (cases "mainThread s")
  case (FeedLoop feeds)
  with s st show ?thesis
    by (cases feeds)
       (auto simp: mainStep_def sound_def schedule_protocol schedule_effect schedule_fields)
next
  case (FeedCount rest)
  with st obtain p where p: "schedule_count (feedPool s) = Inr p"
    and s': "s' = s\<lparr>feedPool := p, mainThread := FeedSignal rest\<rparr>"
    by (auto simp: mainStep_def split: sum.splits)
  from schedule_count_effect [OF p, of "unsignalled \<circ> workerThread"] p
  have "tally (unsignalled \<circ> workerThread) p = tally (unsignalled \<circ> workerThread) (feedPool s)"
    and "thunkQueue p = thunkQueue (feedPool s)"
    and "newThunkFromScheduler p = newThunkFromScheduler (feedPool s)"
    and "dispatcherThread p = dispatcherThread (feedPool s)"
    by (auto simp: schedule_count_def split: if_splits)
  with s FeedCount s' schedule_protocol(3) [OF _ p] show ?thesis
    by (simp add: sound_def)
next
  case (FeedSignal rest)
  with s st show ?thesis
    by (auto simp: mainStep_def sound_def schedule_protocol schedule_effect schedule_fields)
next
  case FeedWait
  with s st show ?thesis
    by (auto simp: mainStep_def sound_def wait_def split: if_splits)
qed (use st in \<open>auto simp: mainStep_def\<close>)

lemma sound_feedDispatcher:
  assumes s: "sound s" and st: "dispatcher (feedPool s) = Inr p"
  shows "sound (s\<lparr>feedPool := p\<rparr>)"
proof -
  from s have pr: "protocol (feedPool s)" by (simp add: sound_def)
  have "tally (unsignalled \<circ> workerThread) p = tally (unsignalled \<circ> workerThread) (feedPool s)"
    using dispatcher_tally [OF st, of unsignalled] by simp
  with dispatcher_queue [OF pr st] dispatcher_protocol [OF pr st] s show ?thesis
    by (simp add: sound_def)
qed

lemma sound_articleDispatcher:
  assumes s: "sound s" and st: "dispatcher (articlePool s) = Inr p"
  shows "sound (s\<lparr>articlePool := p\<rparr>)"
proof -
  from s have pr: "protocol (articlePool s)" by (simp add: sound_def)
  with dispatcher_queue [OF pr st] dispatcher_protocol [OF pr st] s show ?thesis
    by (simp add: sound_def)
qed

lemma sound_feedWorker:
  assumes s: "sound s" and st: "worker FeedClaim i (feedPool s) = Inr p"
  shows "sound (s\<lparr>feedPool := p\<rparr>)"
proof -
  from s have pr: "protocol (feedPool s)" by (simp add: sound_def)
  have "tally (unsignalled \<circ> workerThread) p = tally (unsignalled \<circ> workerThread) (feedPool s)"
    using st by (rule worker_tally) simp_all
  with worker_queue [OF st] worker_protocol [OF pr st] s show ?thesis
    by (simp add: sound_def)
qed

lemma sound_articleWorker:
  assumes s: "sound s" and st: "worker ArticleClaim i (articlePool s) = Inr p"
  shows "sound (s\<lparr>articlePool := p\<rparr>)"
proof -
  from s have pr: "protocol (articlePool s)" by (simp add: sound_def)
  with worker_queue [OF st] worker_protocol [OF pr st] s show ?thesis
    by (simp add: sound_def)
qed

lemma thunkAt_queue [simp]:
  "thunkQueue (thunkAt i pc p) = thunkQueue p"
  "newThunkFromScheduler (thunkAt i pc p) = newThunkFromScheduler p"
  "dispatcherThread (thunkAt i pc p) = dispatcherThread p"
  by (simp_all add: thunkAt_def)

lemma sound_articleThunk:
  assumes s: "sound s" and i: "i < length (workerVector (articlePool s))"
    and r: "workerThread (workerVector (articlePool s) ! i) = Running pc"
    and st: "articleThunk web i pc s = Inr s'"
  shows "sound s'"
proof -
  from s have pr: "protocol (articlePool s)" by (simp add: sound_def)
  have key: "sound (s\<lparr>articlePool := thunkAt i pc' (articlePool s)\<rparr>) \<and>
      sound (s\<lparr>seenURLs := seen, articlePool := thunkAt i pc' (articlePool s)\<rparr>) \<and>
      sound (s\<lparr>intermediateIndex := idx, articlePool := thunkAt i pc' (articlePool s)\<rparr>)"
    if "busy pc' = 1" for pc' seen idx
    using thunkAt_protocol [OF pr i r that] s by (simp add: sound_def)
  from st show ?thesis
    unfolding articleThunk_def
    by (auto split: articlePc.splits prod.splits if_splits option.splits simp: key)
qed

lemma sound_feedThunk:
  assumes s: "sound s" and i: "i < length (workerVector (feedPool s))"
    and r: "workerThread (workerVector (feedPool s) ! i) = Running pc"
    and st: "feedThunk web i pc s = Inr s'"
  shows "sound s'"
proof -
  let ?F = "feedPool s" and ?A = "articlePool s"
  let ?U = "tally (unsignalled \<circ> workerThread)"
  from s have pF: "protocol ?F" and pA: "protocol ?A"
    and qF: "length (thunkQueue ?F) =
       newThunkFromScheduler ?F + due (dispatcherThread ?F) + unsignalledFeed (mainThread s)"
    and qA: "length (thunkQueue ?A) =
       newThunkFromScheduler ?A + due (dispatcherThread ?A) + ?U ?F"
    by (simp_all add: sound_def)
  have U: "int (?U (thunkAt i pc' ?F)) = int (?U ?F) + int (unsignalled pc') - int (unsignalled (Running pc))"
    if "busy pc' = 1" for pc'
    using thunkAt_effect(4) [OF i r that, of unsignalled] .
  note P = thunkAt_protocol [OF pF i r]
  have stay: "sound (s\<lparr>feedPool := thunkAt i pc' ?F\<rparr>) \<and>
      sound (s\<lparr>seenURLs := seen, feedPool := thunkAt i pc' ?F\<rparr>)"
    if "busy pc' = 1" "unsignalled pc' = unsignalled (Running pc)" for pc' seen
    using P [OF that(1)] U [OF that(1)] that(2) pA qF qA by (simp add: sound_def)
  show ?thesis
  proof (cases pc)
    case (FeedClaim f)
    with st show ?thesis
      by (auto simp: feedThunk_def stay split: prod.splits if_splits)
  next
    case (FeedParse f)
    with st show ?thesis
      by (auto simp: feedThunk_def stay split: option.splits if_splits)
  next
    case (ArticleLoop articles)
    show ?thesis
    proof (cases articles)
      case Nil
      with st ArticleLoop show ?thesis by (auto simp: feedThunk_def stay)
    next
      case (Cons a rest)
      with st ArticleLoop
      have s': "s' = s\<lparr>articlePool := schedule_push a ?A,
                      feedPool := thunkAt i (Running (ArticleCount rest)) ?F\<rparr>"
        by (simp add: feedThunk_def)
      have "int (?U (thunkAt i (Running (ArticleCount rest)) ?F)) = int (?U ?F) + 1"
        using U [of "Running (ArticleCount rest)"] ArticleLoop by simp
      then have "?U (thunkAt i (Running (ArticleCount rest)) ?F) = ?U ?F + 1" by linarith
      with P [of "Running (ArticleCount rest)"] pA qF qA show ?thesis
        unfolding s' by (simp add: sound_def schedule_protocol schedule_fields)
    qed
  next
    case (ArticleCount rest)
    with st obtain p where p: "schedule_count ?A = Inr p"
      and s': "s' = s\<lparr>articlePool := p,
                      feedPool := thunkAt i (Running (ArticleSignal rest)) ?F\<rparr>"
      by (auto simp: feedThunk_def split: sum.splits)
    from p have f: "thunkQueue p = thunkQueue ?A"
      "newThunkFromScheduler p = newThunkFromScheduler ?A"
      "dispatcherThread p = dispatcherThread ?A"
      by (auto simp: schedule_count_def split: if_splits)
    have "?U (thunkAt i (Running (ArticleSignal rest)) ?F) = ?U ?F"
      using U [of "Running (ArticleSignal rest)"] ArticleCount by simp
    with P [of "Running (ArticleSignal rest)"] schedule_protocol(3) [OF pA p] f qF qA
    show ?thesis unfolding s' by (simp add: sound_def)
  next
    case (ArticleSignal rest)
    with st have s': "s' = s\<lparr>articlePool := schedule_signal ?A,
                      feedPool := thunkAt i (Running (ArticleLoop rest)) ?F\<rparr>"
      by (simp add: feedThunk_def)
    have "int (?U (thunkAt i (Running (ArticleLoop rest)) ?F)) = int (?U ?F) - 1"
      using U [of "Running (ArticleLoop rest)"] ArticleSignal by simp
    then have "?U ?F = ?U (thunkAt i (Running (ArticleLoop rest)) ?F) + 1" by linarith
    with P [of "Running (ArticleLoop rest)"] pA qF qA show ?thesis
      unfolding s' by (simp add: sound_def schedule_protocol schedule_fields)
  next
    case ArticleWait
    with st show ?thesis
      by (auto simp: feedThunk_def stay wait_def split: if_splits)
  qed
qed

lemma sound_step:
  assumes s: "sound s" and st: "step web t s = Inr s'"
  shows "sound s'"
proof (cases t)
  case MainThread
  with st s show ?thesis by (simp add: sound_main)
next
  case (DispatcherThread pl)
  with st s show ?thesis
    by (cases pl) (auto split: sum.splits simp: sound_feedDispatcher sound_articleDispatcher)
next
  case (WorkerThread pl i)
  show ?thesis
  proof (cases pl)
    case FeedPool
    with st WorkerThread have i: "i < length (workerVector (feedPool s))"
      by (auto split: if_splits)
    show ?thesis
    proof (cases "\<exists>pc. workerThread (workerVector (feedPool s) ! i) = Running pc")
      case True
      then obtain pc where r: "workerThread (workerVector (feedPool s) ! i) = Running pc" ..
      with st WorkerThread FeedPool i have "feedThunk web i pc s = Inr s'" by simp
      from sound_feedThunk [OF s i r this] show ?thesis .
    next
      case False
      with st WorkerThread FeedPool i obtain p where "worker FeedClaim i (feedPool s) = Inr p"
        and "s' = s\<lparr>feedPool := p\<rparr>"
        by (auto split: sum.splits workerPc.splits)
      with s show ?thesis by (simp add: sound_feedWorker)
    qed
  next
    case ArticlePool
    with st WorkerThread have i: "i < length (workerVector (articlePool s))"
      by (auto split: if_splits)
    show ?thesis
    proof (cases "\<exists>pc. workerThread (workerVector (articlePool s) ! i) = Running pc")
      case True
      then obtain pc where r: "workerThread (workerVector (articlePool s) ! i) = Running pc" ..
      with st WorkerThread ArticlePool i have "articleThunk web i pc s = Inr s'" by simp
      from sound_articleThunk [OF s i r this] show ?thesis .
    next
      case False
      with st WorkerThread ArticlePool i obtain p where "worker ArticleClaim i (articlePool s) = Inr p"
        and "s' = s\<lparr>articlePool := p\<rparr>"
        by (auto split: sum.splits workerPc.splits)
      with s show ?thesis by (simp add: sound_articleWorker)
    qed
  qed
qed

lemma feedThunk_fault: "feedThunk web i pc s = Inl f \<Longrightarrow> f = Blocked \<or> f = Overflow"
  unfolding feedThunk_def
  by (auto simp: schedule_count_def wait_def
           split: feedPc.splits prod.splits if_splits option.splits list.splits sum.splits)

lemma articleThunk_fault: "articleThunk web i pc s = Inl f \<Longrightarrow> f = Blocked \<or> f = Overflow"
  unfolding articleThunk_def
  by (auto split: articlePc.splits prod.splits if_splits option.splits)

lemma mainStep_fault: "mainStep s = Inl f \<Longrightarrow> f = Blocked \<or> f = Overflow"
  unfolding mainStep_def
  by (auto simp: schedule_count_def wait_def split: mainPc.splits list.splits sum.splits if_splits)

lemma dispatcher_sound_fault:
  assumes pr: "protocol p" and st: "dispatcher p = Inl f"
    and q: "length (thunkQueue p) = newThunkFromScheduler p + due (dispatcherThread p) + n"
  shows "f = Blocked"
  using dispatcher_fault [OF pr st] q by auto

lemma step_fault:
  assumes s: "sound s" and st: "step web t s = Inl f"
  shows "f = Blocked \<or> f = Overflow"
proof (cases t)
  case MainThread
  with st show ?thesis by (simp add: mainStep_fault)
next
  case (DispatcherThread pl)
  show ?thesis
  proof (cases pl)
    case FeedPool
    with st DispatcherThread have "dispatcher (feedPool s) = Inl f" by (auto split: sum.splits)
    from dispatcher_sound_fault [OF _ this] s show ?thesis by (auto simp: sound_def)
  next
    case ArticlePool
    with st DispatcherThread have "dispatcher (articlePool s) = Inl f" by (auto split: sum.splits)
    from dispatcher_sound_fault [OF _ this] s show ?thesis by (auto simp: sound_def)
  qed
next
  case (WorkerThread pl i)
  show ?thesis
  proof (cases pl)
    case FeedPool
    show ?thesis
    proof (cases "i < length (workerVector (feedPool s))")
      case True
      show ?thesis
      proof (cases "\<exists>pc. workerThread (workerVector (feedPool s) ! i) = Running pc")
        case R: True
        then obtain pc where r: "workerThread (workerVector (feedPool s) ! i) = Running pc" ..
        with st WorkerThread FeedPool True have "feedThunk web i pc s = Inl f" by simp
        then show ?thesis by (rule feedThunk_fault)
      next
        case False
        with st WorkerThread FeedPool True have "worker FeedClaim i (feedPool s) = Inl f"
          by (auto split: sum.splits workerPc.splits)
        from worker_fault [OF _ this] s show ?thesis by (simp add: sound_def)
      qed
    qed (use st WorkerThread FeedPool in simp)
  next
    case ArticlePool
    show ?thesis
    proof (cases "i < length (workerVector (articlePool s))")
      case True
      show ?thesis
      proof (cases "\<exists>pc. workerThread (workerVector (articlePool s) ! i) = Running pc")
        case R: True
        then obtain pc where r: "workerThread (workerVector (articlePool s) ! i) = Running pc" ..
        with st WorkerThread ArticlePool True have "articleThunk web i pc s = Inl f" by simp
        then show ?thesis by (rule articleThunk_fault)
      next
        case False
        with st WorkerThread ArticlePool True have "worker ArticleClaim i (articlePool s) = Inl f"
          by (auto split: sum.splits workerPc.splits)
        from worker_fault [OF _ this] s show ?thesis by (simp add: sound_def)
      qed
    qed (use st WorkerThread ArticlePool in simp)
  qed
qed

lemma run_fault: "sound s \<Longrightarrow> run web ts s = Inl f \<Longrightarrow> f = Blocked \<or> f = Overflow"
proof (induction ts arbitrary: s)
  case Nil
  then show ?case by simp
next
  case (Cons t ts)
  show ?case
  proof (cases "step web t s")
    case (Inl g)
    with Cons.prems step_fault [OF Cons.prems(1) Inl] show ?thesis by simp
  next
    case (Inr s1)
    with Cons.prems have "run web ts s1 = Inl f" by simp
    from Cons.IH [OF sound_step [OF Cons.prems(1) Inr] this] show ?thesis .
  qed
qed

lemma sound_launch:
  assumes "feedPool s = ThreadPool_new nf" and "articlePool s = ThreadPool_new na"
    and "int nf \<le> INT_MAX" and "int na \<le> INT_MAX"
  shows "sound (s\<lparr>mainThread := FeedLoop feeds\<rparr>)"
  using assms by (simp add: sound_def protocol_new tally_new) (simp add: ThreadPool_new_def)

text \<open>
  From pools as their constructor leaves them, no schedule leads \<^verbatim>\<open>launchFeedPool\<close> into
  undefined behaviour or into \<^verbatim>\<open>std::terminate\<close>: the dispatcher always finds the free worker
  that \<^verbatim>\<open>workerIsAvailable\<close> promised it and a thunk in the queue for the signal it took, and
  a worker that is signalled has a thunk to call. A step that cannot be taken is that of a
  thread that is blocked, or it would take a counter of pending thunks out of the range
  of \<^verbatim>\<open>int\<close>.
\<close>

lemma launchFeedPool_never_goes_wrong:
  assumes "feedPool s = ThreadPool_new nf" and "articlePool s = ThreadPool_new na"
    and "int nf \<le> INT_MAX" and "int na \<le> INT_MAX"
    and "launchFeedPool web feeds sched s = Inl f"
  shows "f = Blocked \<or> f = Overflow"
proof (cases "run web sched (s\<lparr>mainThread := FeedLoop feeds\<rparr>)")
  case (Inl g)
  with assms(5) have "g = f" by (simp add: launchFeedPool_def)
  with run_fault [OF sound_launch [OF assms(1-4)] Inl] show ?thesis by simp
next
  case (Inr s')
  with assms(5) show ?thesis by (auto simp: launchFeedPool_def split: if_splits)
qed

end
